theory Spec2Isabelle
  imports Complex_Main
begin

section \<open>Data model of \<open>pl_ranking.py\<close>\<close>

text \<open>
  A Python \<open>dict\<close> is modelled as an association list in insertion order whose keys are
  pairwise distinct; a ranking is the dict \<open>player : finish\<close>.  Python's \<open>float\<close> is
  modelled by \<open>real\<close> (rounding, overflow and underflow are abstracted away; the literal
  \<open>1e-9\<close> is the real number \<open>1 / 10 ^ 9\<close>), Python's unbounded \<open>int\<close> by \<open>int\<close>.
  Every exception the code can raise is a value \<open>Inl e\<close>.
\<close>

datatype 'p error = ZeroDivisionError | KeyError | NeitherWinNorLoss 'p

text \<open>The dict keys of the program: \<open>str\<close> names of real players, and the \<open>int\<close> key
  \<open>0\<close> of the fake player.  \<open>truthy\<close> is Python's truth value of a key.\<close>

datatype key = Num int | Str string

fun truthy :: "key \<Rightarrow> bool" where
  "truthy (Num i) = (i \<noteq> 0)"
| "truthy (Str s) = (s \<noteq> [])"

type_synonym 'p ranking = "('p \<times> int) list"

text \<open>\<open>d[k] = v\<close>: an existing key keeps its place, a new key goes to the end.\<close>

fun dict_set :: "('k \<times> 'v) list \<Rightarrow> 'k \<Rightarrow> 'v \<Rightarrow> ('k \<times> 'v) list" where
  "dict_set [] k v = [(k, v)]"
| "dict_set ((k', v') # d) k v =
     (if k' = k then (k', v) # d else (k', v') # dict_set d k v)"

text \<open>\<open>d[k]\<close>, raising \<open>KeyError\<close> on a missing key.\<close>

definition dict_get :: "('k \<times> 'v) list \<Rightarrow> 'k \<Rightarrow> 'k error + 'v" where
  "dict_get d k = (case map_of d k of None \<Rightarrow> Inl KeyError | Some v \<Rightarrow> Inr v)"

text \<open>\<open>x / y\<close> on numbers, raising \<open>ZeroDivisionError\<close>.\<close>

definition py_div :: "real \<Rightarrow> real \<Rightarrow> 'e error + real" where
  "py_div x y = (if y = 0 then Inl ZeroDivisionError else Inr (x / y))"

text \<open>\<open>sum(f(x) for x in xs)\<close>: the accumulator starts at \<open>0\<close>, the elements are
  evaluated in order, and the first exception ends the evaluation.\<close>

fun py_sum_from :: "real \<Rightarrow> ('a \<Rightarrow> 'e error + real) \<Rightarrow> 'a list \<Rightarrow> 'e error + real" where
  "py_sum_from acc f [] = Inr acc"
| "py_sum_from acc f (x # xs) =
     (case f x of Inl e \<Rightarrow> Inl e | Inr v \<Rightarrow> py_sum_from (acc + v) f xs)"

definition py_sum :: "('a \<Rightarrow> 'e error + real) \<Rightarrow> 'a list \<Rightarrow> 'e error + real" where
  "py_sum f xs = py_sum_from 0 f xs"

text \<open>A comprehension \<open>[f(x) for x in xs]\<close> whose element expression may raise.\<close>

fun map_err :: "('a \<Rightarrow> 'e error + 'b) \<Rightarrow> 'a list \<Rightarrow> 'e error + 'b list" where
  "map_err f [] = Inr []"
| "map_err f (x # xs) =
     (case f x of Inl e \<Rightarrow> Inl e
      | Inr v \<Rightarrow> (case map_err f xs of Inl e \<Rightarrow> Inl e | Inr vs \<Rightarrow> Inr (v # vs)))"

section \<open>The estimator \<open>plackett_luce\<close>\<close>

text \<open>\<open>players = set(key for ranking in rankings for key in ranking.keys())\<close>.  The
  iteration order of a Python set is not specified; the model enumerates the set without
  repetition.\<close>

definition players_of :: "'p ranking list \<Rightarrow> 'p list" where
  "players_of rankings = remdups (concat (map (map fst) rankings))"

text \<open>\<open>collections.Counter\<close>: counting the elements of a sequence; a missing key reads
  as \<open>0\<close>.\<close>

definition counter_add :: "('k \<times> int) list \<Rightarrow> 'k \<Rightarrow> ('k \<times> int) list" where
  "counter_add c k = (case map_of c k of None \<Rightarrow> dict_set c k 1 | Some n \<Rightarrow> dict_set c k (n + 1))"

definition Counter :: "'k list \<Rightarrow> ('k \<times> int) list" where
  "Counter xs = foldl counter_add [] xs"

definition counter_get :: "('k \<times> int) list \<Rightarrow> 'k \<Rightarrow> int" where
  "counter_get c k = (case map_of c k of None \<Rightarrow> 0 | Some n \<Rightarrow> n)"

text \<open>\<open>ws = Counter(name for ranking in rankings for name, finish in ranking.items()
  if finish < len(ranking))\<close>\<close>

definition ws_of :: "'p ranking list \<Rightarrow> ('p \<times> int) list" where
  "ws_of rankings =
     Counter (concat (map (\<lambda>ranking.
        map fst (filter (\<lambda>(name, finish). finish < int (length ranking)) ranking)) rankings))"

text \<open>\<open>sum(gammas[finisher] for finisher in ranking if ranking[finisher] >= place)\<close>\<close>

definition remaining_sum :: "('p \<times> real) list \<Rightarrow> 'p ranking \<Rightarrow> int \<Rightarrow> 'p error + real" where
  "remaining_sum gammas ranking place =
     py_sum (\<lambda>(finisher, pos). dict_get gammas finisher)
       (filter (\<lambda>(finisher, pos). pos \<ge> place) ranking)"

text \<open>\<open>0 if player not in ranking or ranking[player] < place else 1 / sum(...)\<close>\<close>

definition place_term :: "('p \<times> real) list \<Rightarrow> 'p \<Rightarrow> 'p ranking \<Rightarrow> int \<Rightarrow> 'p error + real" where
  "place_term gammas player ranking place =
     (case map_of ranking player of
        None \<Rightarrow> Inr 0
      | Some r \<Rightarrow>
          if r < place then Inr 0
          else (case remaining_sum gammas ranking place of
                  Inl e \<Rightarrow> Inl e
                | Inr s \<Rightarrow> py_div 1 s))"

text \<open>\<open>sum(sum(... for place in ranking.values()) for ranking in rankings)\<close>\<close>

definition denom_of :: "('p \<times> real) list \<Rightarrow> 'p ranking list \<Rightarrow> 'p \<Rightarrow> 'p error + real" where
  "denom_of gammas rankings player =
     py_sum (\<lambda>ranking. py_sum (\<lambda>place. place_term gammas player ranking place) (map snd ranking))
       rankings"

text \<open>\<open>denoms = {player : ... for player in players}\<close>\<close>

definition denoms_of :: "'p list \<Rightarrow> ('p \<times> real) list \<Rightarrow> 'p ranking list \<Rightarrow> 'p error + ('p \<times> real) list" where
  "denoms_of players gammas rankings =
     map_err (\<lambda>player. case denom_of gammas rankings player of
                          Inl e \<Rightarrow> Inl e | Inr d \<Rightarrow> Inr (player, d)) players"

text \<open>\<open>gammas = {player : ws[player] / denoms[player] for player in players}\<close>\<close>

definition new_gammas :: "'p list \<Rightarrow> ('p \<times> int) list \<Rightarrow> ('p \<times> real) list \<Rightarrow> 'p error + ('p \<times> real) list" where
  "new_gammas players ws denoms =
     map_err (\<lambda>player. case dict_get denoms player of
                          Inl e \<Rightarrow> Inl e
                        | Inr d \<Rightarrow> (case py_div (real_of_int (counter_get ws player)) d of
                                     Inl e \<Rightarrow> Inl e | Inr g \<Rightarrow> Inr (player, g))) players"

text \<open>\<open>sum((gamma - _gammas[player]) ** 2 for player, gamma in gammas.items())\<close>\<close>

definition gdiff_of :: "('p \<times> real) list \<Rightarrow> ('p \<times> real) list \<Rightarrow> 'p error + real" where
  "gdiff_of gammas prev =
     py_sum (\<lambda>(player, gamma). case dict_get prev player of
                                  Inl e \<Rightarrow> Inl e | Inr g0 \<Rightarrow> Inr ((gamma - g0) ^ 2)) gammas"

text \<open>What the loop prints: the progress line of every iteration, an empty \<open>print()\<close>,
  and the diagnostic line with the two statistics.\<close>

datatype event = Progress int real | Newline | Increased real real

text \<open>The local variables of the loop (\<open>prev_gammas\<close> is the source's \<open>_gammas\<close>) and the
  output written so far.\<close>

record 'p pl_state =
  gammas :: "('p \<times> real) list"
  prev_gammas :: "('p \<times> real) list"
  gdiff :: real
  pgdiff :: real
  iteration :: int
  printed :: "event list"

text \<open>The body of the \<open>while\<close> loop, lines 26 to 35.\<close>

definition pl_body :: "'p list \<Rightarrow> 'p ranking list \<Rightarrow> ('p \<times> int) list \<Rightarrow> 'p pl_state \<Rightarrow> 'p error + 'p pl_state" where
  "pl_body players rankings ws s =
     (case denoms_of players (gammas s) rankings of
        Inl e \<Rightarrow> Inl e
      | Inr denoms \<Rightarrow>
         (case new_gammas players ws denoms of
            Inl e \<Rightarrow> Inl e
          | Inr g' \<Rightarrow>
             (case gdiff_of g' (gammas s) of
                Inl e \<Rightarrow> Inl e
              | Inr gd \<Rightarrow>
                  Inr \<lparr> gammas = g', prev_gammas = gammas s, gdiff = gd, pgdiff = gdiff s,
                        iteration = iteration s + 1,
                        printed = printed s @ [Progress (iteration s + 1) gd] @
                          (if gd > gdiff s then [Newline, Increased gd (gdiff s)] else []) \<rparr>)))"

text \<open>\<open>while gdiff > 1e-9: ...\<close>.  The loop need not terminate: \<open>None\<close> is the run that
  never leaves it.\<close>

partial_function (option) pl_while ::
  "'p list \<Rightarrow> 'p ranking list \<Rightarrow> ('p \<times> int) list \<Rightarrow> 'p pl_state \<Rightarrow> ('p error + 'p pl_state) option" where
  "pl_while players rankings ws s =
     (if gdiff s > 1 / 10 ^ 9 then
        (case pl_body players rankings ws s of
           Inl e \<Rightarrow> Some (Inl e)
         | Inr s' \<Rightarrow> pl_while players rankings ws s')
      else Some (Inr s))"

text \<open>The state on entry to the loop, lines 20 to 24.\<close>

definition pl_init :: "'p list \<Rightarrow> 'p pl_state" where
  "pl_init players =
     \<lparr> gammas = map (\<lambda>player. (player, 1 / real (length players))) players,
       prev_gammas = map (\<lambda>player. (player, 0)) players,
       gdiff = 10, pgdiff = 100, iteration = 0, printed = [] \<rparr>"

text \<open>\<open>plackett_luce(rankings)\<close>: the returned dict, with what was printed.\<close>

definition plackett_luce :: "'p ranking list \<Rightarrow> ('p error + ('p \<times> real) list \<times> event list) option" where
  "plackett_luce rankings =
     (let players = players_of rankings; ws = ws_of rankings in
      case pl_while players rankings ws (pl_init players) of
        None \<Rightarrow> None
      | Some (Inl e) \<Rightarrow> Some (Inl e)
      | Some (Inr s) \<Rightarrow> Some (Inr (gammas s, printed s @ [Newline])))"

section \<open>\<open>normalize_ratings\<close> and the report of \<open>main\<close>\<close>

text \<open>\<open>normalization_constant = sum(value for p, value in ratings)\<close>, then
  \<open>[(p, v / normalization_constant) for p, v in ratings]\<close>.\<close>

definition normalize_ratings :: "('p \<times> real) list \<Rightarrow> 'p error + ('p \<times> real) list" where
  "normalize_ratings ratings =
     (let normalization_constant = sum_list (map snd ratings) in
      map_err (\<lambda>(p, v). case py_div v normalization_constant of
                           Inl e \<Rightarrow> Inl e | Inr x \<Rightarrow> Inr (p, x)) ratings)"

text \<open>\<open>del d[k]\<close>, raising \<open>KeyError\<close> on a missing key.\<close>

definition dict_del :: "('k \<times> 'v) list \<Rightarrow> 'k \<Rightarrow> 'k error + ('k \<times> 'v) list" where
  "dict_del d k =
     (case map_of d k of None \<Rightarrow> Inl KeyError | Some v \<Rightarrow> Inr (filter (\<lambda>(k', v'). k' \<noteq> k) d))"

text \<open>Lines 138 to 143 of \<open>main\<close>: \<open>del ratings[0]\<close>, the stable sort by decreasing
  rating, the cut to the first 20, the normalisation.\<close>

definition post_process :: "(key \<times> real) list \<Rightarrow> key error + (key \<times> real) list" where
  "post_process ratings =
     (case dict_del ratings (Num 0) of
        Inl e \<Rightarrow> Inl e
      | Inr r \<Rightarrow> normalize_ratings (take 20 (sort_key (\<lambda>x. - snd x) r)))"

section \<open>The fake player of \<open>main\<close>\<close>

text \<open>Lines 130 to 133: for every player the dicts \<open>{0: 1, p: 2}\<close> and \<open>{0: 2, p: 1}\<close>.\<close>

definition fake_games :: "key list \<Rightarrow> key ranking list" where
  "fake_games players =
     concat (map (\<lambda>p. [dict_set [(Num 0, 1)] p 2, dict_set [(Num 0, 2)] p 1]) players)"

text \<open>Lines 126 to 135: \<open>players\<close> is the set of the keys of all games, and
  \<open>game_results += fake_games\<close>.\<close>

definition augment :: "key ranking list \<Rightarrow> key ranking list" where
  "augment game_results = game_results @ fake_games (players_of game_results)"

text \<open>Lines 136 to 143: the ratings \<open>main\<close> prints, from the game results it has read.\<close>

definition main_ratings :: "key ranking list \<Rightarrow> (key error + (key \<times> real) list) option" where
  "main_ratings game_results =
     (case plackett_luce (augment game_results) of
        None \<Rightarrow> None
      | Some (Inl e) \<Rightarrow> Some (Inl e)
      | Some (Inr (ratings, out)) \<Rightarrow> Some (post_process ratings))"

section \<open>The validator \<open>check_games\<close>\<close>

text \<open>\<open>pc\<close> maps a player to the list \<open>[missing win, missing loss]\<close> of two flags.
  \<open>pc.setdefault(user, [1, 1])\<close> returns the player's flags, after entering \<open>[1, 1]\<close>
  at the end of the dict for a player it does not hold; the assignment \<open>[0] = 0\<close> or
  \<open>[1] = 0\<close> of the same statement then clears one flag.\<close>

definition flags_of :: "('k \<times> int \<times> int) list \<Rightarrow> 'k \<Rightarrow> int \<times> int" where
  "flags_of pc user = (case map_of pc user of None \<Rightarrow> (1, 1) | Some f \<Rightarrow> f)"

definition clear_win :: "('k \<times> int \<times> int) list \<Rightarrow> 'k \<Rightarrow> ('k \<times> int \<times> int) list" where
  "clear_win pc user = dict_set pc user (0, snd (flags_of pc user))"

definition clear_loss :: "('k \<times> int \<times> int) list \<Rightarrow> 'k \<Rightarrow> ('k \<times> int \<times> int) list" where
  "clear_loss pc user = dict_set pc user (fst (flags_of pc user), 0)"

record check_state =
  pc :: "(key \<times> int \<times> int) list"
  max_rank :: int
  max_user :: "key option"

text \<open>The body of \<open>for user, rank in game.items()\<close>, lines 51 to 59.  \<open>if max_user:\<close>
  is false for \<open>None\<close> and for a key that is not truthy.\<close>

definition check_step :: "check_state \<Rightarrow> key \<times> int \<Rightarrow> check_state" where
  "check_step s item =
     (case item of (user, rank) \<Rightarrow>
        let pc1 = (if rank > 1 then clear_loss (pc s) user else pc s) in
        if rank > max_rank s then
          \<lparr> pc = (case max_user s of
                    None \<Rightarrow> pc1
                  | Some u \<Rightarrow> if truthy u then clear_win pc1 u else pc1),
            max_rank = rank, max_user = Some user \<rparr>
        else if rank < max_rank s then
          \<lparr> pc = clear_win pc1 user, max_rank = max_rank s, max_user = max_user s \<rparr>
        else \<lparr> pc = pc1, max_rank = max_rank s, max_user = max_user s \<rparr>)"

text \<open>One pass of \<open>for game in games\<close>, lines 48 to 59: the state at the end of the game.\<close>

definition check_game :: "(key \<times> int \<times> int) list \<Rightarrow> key ranking \<Rightarrow> check_state" where
  "check_game pc0 game = foldl check_step \<lparr> pc = pc0, max_rank = 0, max_user = None \<rparr> game"

definition check_pc :: "key ranking list \<Rightarrow> (key \<times> int \<times> int) list" where
  "check_pc games = foldl (\<lambda>pc0 game. pc (check_game pc0 game)) [] games"

text \<open>The loop of lines 64 to 74 over \<open>pc.items()\<close> (its \<open>print\<close> is left out).\<close>

fun classify :: "(key \<times> int \<times> int) list \<Rightarrow> key list \<Rightarrow> key list \<Rightarrow> key error + key list \<times> key list" where
  "classify [] winners losers = Inr (winners, losers)"
| "classify ((player, win, loss) # rest) winners losers =
     (if win = 0 \<and> loss = 0 then classify rest winners losers
      else if win \<noteq> 0 \<and> loss \<noteq> 0 then Inl (NeitherWinNorLoss player)
      else if win \<noteq> 0 then classify rest winners (losers @ [player])
      else classify rest (winners @ [player]) losers)"

text \<open>\<open>check_games(games)\<close>: the pair \<open>winners, losers\<close>, or \<open>None, None\<close>.\<close>

definition check_games :: "key ranking list \<Rightarrow> key error + key list option \<times> key list option" where
  "check_games games =
     (let pc = check_pc games;
          missing_wl = sum_list (map (\<lambda>(player, w, l). w + l) pc) in
      if missing_wl > 0 then
        (case classify pc [] [] of
           Inl e \<Rightarrow> Inl e
         | Inr (winners, losers) \<Rightarrow> Inr (Some winners, Some losers))
      else Inr (None, None))"

section \<open>Vocabulary of the statements\<close>

text \<open>\<open>reached R p place\<close>: player \<open>p\<close> is in ranking \<open>R\<close> with a position that is at
  least \<open>place\<close>.  \<open>still_in g R place\<close>: the sum of the values \<open>g\<close> of the participants
  of \<open>R\<close> whose position is at least \<open>place\<close>.\<close>

definition reached :: "'p ranking \<Rightarrow> 'p \<Rightarrow> int \<Rightarrow> bool" where
  "reached R p place = (case map_of R p of None \<Rightarrow> False | Some r \<Rightarrow> place \<le> r)"

definition still_in :: "('p \<Rightarrow> real) \<Rightarrow> 'p ranking \<Rightarrow> int \<Rightarrow> real" where
  "still_in g R place = (\<Sum>(q, pos)\<leftarrow>filter (\<lambda>(q, pos). place \<le> pos) R. g q)"

text \<open>The denominator as the specification words it: one term for each distinct
  position value of a ranking.\<close>

definition spec_denom :: "('p \<Rightarrow> real) \<Rightarrow> 'p ranking list \<Rightarrow> 'p \<Rightarrow> real" where
  "spec_denom g rankings p =
     (\<Sum>R\<leftarrow>filter (\<lambda>R. p \<in> fst ` set R) rankings.
        \<Sum>place\<leftarrow>remdups (map snd R). if reached R p place then 1 / still_in g R place else 0)"

text \<open>The events of the glossary: in some ranking the player finished strictly better
  (win-class) or strictly worse (loss-class) than a rival.\<close>

definition win_class :: "'p ranking list \<Rightarrow> 'p \<Rightarrow> bool" where
  "win_class games u = (\<exists>g\<in>set games. \<exists>(p, r)\<in>set g. p = u \<and> (\<exists>(q, r')\<in>set g. r < r'))"

definition loss_class :: "'p ranking list \<Rightarrow> 'p \<Rightarrow> bool" where
  "loss_class games u = (\<exists>g\<in>set games. \<exists>(p, r)\<in>set g. p = u \<and> (\<exists>(q, r')\<in>set g. r' < r))"

text \<open>\<open>beats g a b\<close>: both are in ranking \<open>g\<close>, and \<open>a\<close> finished strictly better.\<close>

definition beats :: "'p ranking \<Rightarrow> 'p \<Rightarrow> 'p \<Rightarrow> bool" where
  "beats g a b =
     (case (map_of g a, map_of g b) of (Some ra, Some rb) \<Rightarrow> ra < rb | _ \<Rightarrow> False)"

text \<open>The loop body run \<open>n\<close> times, stopping at the first exception.\<close>

fun body_iter :: "nat \<Rightarrow> 'p list \<Rightarrow> 'p ranking list \<Rightarrow> ('p \<times> int) list \<Rightarrow> 'p pl_state \<Rightarrow> 'p error + 'p pl_state" where
  "body_iter 0 players rankings ws s = Inr s"
| "body_iter (Suc n) players rankings ws s =
     (case pl_body players rankings ws s of
        Inl e \<Rightarrow> Inl e
      | Inr s' \<Rightarrow> body_iter n players rankings ws s')"

text \<open>The detection of one ranking as the specification words it: the best (lowest)
  position seen so far and its holder are tracked; a strictly better newcomer takes the
  holder's place and the displaced holder gets a loss-class mark; a position worse than
  1 gets a loss-class mark at once; no win-class mark is ever written.\<close>

definition spec_check_step ::
  "(key \<times> int \<times> int) list \<times> (int \<times> key) option \<Rightarrow> key \<times> int \<Rightarrow> (key \<times> int \<times> int) list \<times> (int \<times> key) option" where
  "spec_check_step st item =
     (case (st, item) of ((pc0, best), (user, rank)) \<Rightarrow>
        let pc1 = (if rank > 1 then clear_loss pc0 user else pc0) in
        (case best of
           None \<Rightarrow> (pc1, Some (rank, user))
         | Some (best_rank, holder) \<Rightarrow>
             if rank < best_rank then (clear_loss pc1 holder, Some (rank, user))
             else (pc1, best)))"

text \<open>\<open>exits_after n ... s u\<close>: started in state \<open>s\<close>, the loop runs its body exactly
  \<open>n\<close> times without an exception and leaves with state \<open>u\<close>: the statistic is above the
  threshold before each of the \<open>n\<close> iterations and at most the threshold after the last.\<close>

definition exits_after :: "nat \<Rightarrow> 'p list \<Rightarrow> 'p ranking list \<Rightarrow> ('p \<times> int) list \<Rightarrow> 'p pl_state \<Rightarrow> 'p pl_state \<Rightarrow> bool" where
  "exits_after n players rankings ws s u \<longleftrightarrow>
     body_iter n players rankings ws s = Inr u \<and> gdiff u \<le> 1 / 10 ^ 9 \<and>
     (\<forall>m<n. \<exists>v. body_iter m players rankings ws s = Inr v \<and> 1 / 10 ^ 9 < gdiff v)"

text \<open>The invariant of the dict \<open>pc\<close>: its keys are distinct and every entry has at
  least one of its two flags cleared.\<close>

definition one_cleared :: "('k \<times> int \<times> int) list \<Rightarrow> bool" where
  "one_cleared pc0 \<longleftrightarrow> distinct (map fst pc0) \<and> (\<forall>(u, w, l)\<in>set pc0. w = 0 \<or> l = 0)"

section \<open>Example inputs\<close>

text \<open>Two players who beat each other once, and two consecutive states of the loop on
  these rankings (the gammas are halved in every iteration; the output is left empty).\<close>

definition Rsym :: "string ranking list" where
  "Rsym = [[(''a'', 1), (''b'', 2)], [(''a'', 2), (''b'', 1)]]"

definition s14 :: "string pl_state" where
  "s14 = \<lparr> gammas = [(''a'', 1 / 32768), (''b'', 1 / 32768)],
      prev_gammas = [(''a'', 1 / 16384), (''b'', 1 / 16384)],
      gdiff = 1 / 536870912, pgdiff = 1 / 134217728, iteration = 14, printed = [] \<rparr>"

definition t15 :: "string pl_state" where
  "t15 = \<lparr> gammas = [(''a'', 1 / 65536), (''b'', 1 / 65536)],
      prev_gammas = [(''a'', 1 / 32768), (''b'', 1 / 32768)],
      gdiff = 1 / 2147483648, pgdiff = 1 / 536870912, iteration = 15,
      printed = [Progress 15 (1 / 2147483648)] \<rparr>"

text \<open>A three-way ranking and a two-way ranking, and the state after the first iteration.\<close>

definition R3 :: "string ranking list" where
  "R3 = [[(''a'', 1), (''b'', 2), (''c'', 3)], [(''b'', 1), (''a'', 2)]]"

definition t1 :: "string pl_state" where
  "t1 = \<lparr>gammas = [(''c'', 0), (''b'', 1 / 2), (''a'', 2 / 11)],
        prev_gammas = [(''c'', 1 / 3), (''b'', 1 / 3), (''a'', 1 / 3)],
        gdiff = 235 / 1452, pgdiff = 10, iteration = 1,
        printed = [Progress 1 (235 / 1452)]\<rparr>"

text \<open>A three-way tie and a two-way ranking, and the states after the first three
  iterations of the estimator on them.\<close>

definition R0 :: "string ranking list" where
  "R0 = [[(''a'', 1), (''c'', 1), (''b'', 1)], [(''a'', 1), (''b'', 2)]]"

definition s1 :: "string pl_state" where
  "s1 = \<lparr>gammas = [(''c'', 1 / 3), (''a'', 4 / 9), (''b'', 2 / 15)],
        prev_gammas = [(''c'', 1 / 3), (''a'', 1 / 3), (''b'', 1 / 3)],
        gdiff = 106 / 2025, pgdiff = 10, iteration = 1,
        printed = [Progress 1 (106 / 2025)]\<rparr>"

definition s2 :: "string pl_state" where
  "s2 = \<lparr>gammas =
        [(''c'', 41 / 135), (''a'', 2132 / 5355), (''b'', 533 / 6675)],
        prev_gammas = [(''c'', 1 / 3), (''a'', 4 / 9), (''b'', 2 / 15)],
        gdiff = 300670907209 / 51107128655625, pgdiff = 106 / 2025,
        iteration = 2,
        printed =
          [Progress 1 (106 / 2025),
           Progress 2 (300670907209 / 51107128655625)]\<rparr>"

definition t3 :: "string pl_state" where
  "t3 = \<lparr>gammas =
        [(''c'', 5588218 / 21446775), (''a'', 310492568516 / 920607582825),
         (''b'', 155246284258 / 2864826996375)],
        prev_gammas =
          [(''c'', 41 / 135), (''a'', 2132 / 5355), (''b'', 533 / 6675)],
        gdiff =
          78703808775894202620714700265163928259794 /
          12645277821776639148338043837426554135015625,
        pgdiff = 300670907209 / 51107128655625, iteration = 3,
        printed =
          [Progress 1 (106 / 2025),
           Progress 2 (300670907209 / 51107128655625),
           Progress 3
            (78703808775894202620714700265163928259794 /
             12645277821776639148338043837426554135015625),
           Newline,
           Increased
            (78703808775894202620714700265163928259794 /
             12645277821776639148338043837426554135015625)
            (300670907209 / 51107128655625)]\<rparr>"

text \<open>The denominators of the third iteration on these rankings.\<close>

definition D2 :: "(string \<times> real) list" where
  "D2 = [(''c'', 21446775 / 5588218), (''a'', 920607582825 / 155246284258),
      (''b'', 2864826996375 / 155246284258)]"

text \<open>Two games of the validator in which each of two players beats the other once.\<close>

definition Gboth :: "key ranking list" where
  "Gboth = [[(Str ''a'', 1), (Str ''b'', 2)], [(Str ''a'', 2), (Str ''b'', 1)]]"

section \<open>Dicts, sums and comprehensions\<close>

lemma dict_set_map_of: "map_of (dict_set d k v) = (map_of d)(k \<mapsto> v)"
  by (induction d) (auto simp: fun_eq_iff)

lemma py_sum_from_iff:
  "py_sum_from acc f xs = Inr s \<longleftrightarrow>
     (\<forall>x\<in>set xs. \<not> isl (f x)) \<and> s = acc + (\<Sum>x\<leftarrow>xs. projr (f x))"
  by (induction xs arbitrary: acc) (auto split: sum.splits)

lemma py_sum_iff:
  "py_sum f xs = Inr s \<longleftrightarrow> (\<forall>x\<in>set xs. \<not> isl (f x)) \<and> s = (\<Sum>x\<leftarrow>xs. projr (f x))"
  by (simp add: py_sum_def py_sum_from_iff)

lemma py_sum_eqI:
  "(\<And>x. x \<in> set xs \<Longrightarrow> f x = Inr (g x)) \<Longrightarrow> py_sum f xs = Inr (\<Sum>x\<leftarrow>xs. g x)"
  unfolding py_sum_iff by (auto intro!: arg_cong[where f=sum_list])

lemma map_err_iff:
  "map_err f xs = Inr ys \<longleftrightarrow> (\<forall>x\<in>set xs. \<not> isl (f x)) \<and> ys = map (\<lambda>x. projr (f x)) xs"
proof (induction xs arbitrary: ys)
  case Nil
  show ?case by auto
next
  case (Cons x xs)
  show ?case
  proof (cases "f x")
    case (Inl e)
    then show ?thesis by auto
  next
    case fx: (Inr v)
    show ?thesis
    proof (cases "map_err f xs")
      case (Inl e)
      with Cons[of "map (\<lambda>x. projr (f x)) xs"] fx show ?thesis by auto
    next
      case (Inr vs)
      with Cons[of vs] fx show ?thesis by auto
    qed
  qed
qed

section \<open>The denominators of an iteration\<close>

lemma remaining_sum_eq:
  assumes "\<And>q pos. (q, pos) \<in> set R \<Longrightarrow> map_of gs q = Some (g q)"
  shows "remaining_sum gs R place = Inr (still_in g R place)"
  unfolding remaining_sum_def still_in_def
  by (rule py_sum_eqI[where g = "\<lambda>(q, pos). g q", simplified]) (auto simp: dict_get_def assms)

lemma place_term_Inr:
  assumes "\<And>q pos. (q, pos) \<in> set R \<Longrightarrow> map_of gs q = Some (g q)"
    and "place_term gs p R place = Inr v"
  shows "v = (if reached R p place then 1 / still_in g R place else 0)"
proof -
  have "remaining_sum gs R place = Inr (still_in g R place)"
    by (rule remaining_sum_eq) (rule assms(1))
  with assms(2) show ?thesis
    by (auto simp: place_term_def reached_def py_div_def split: option.splits if_splits)
qed


lemma py_sum_InrD:
  assumes "py_sum f xs = Inr s" and "x \<in> set xs"
  shows "\<exists>v. f x = Inr v"
proof (cases "f x")
  case (Inl e)
  with assms show ?thesis by (auto simp: py_sum_iff)
next
  case (Inr v)
  then show ?thesis by simp
qed

lemma py_sum_cong_Inr:
  assumes "py_sum f xs = Inr s"
    and "\<And>x v. x \<in> set xs \<Longrightarrow> f x = Inr v \<Longrightarrow> v = g x"
  shows "s = (\<Sum>x\<leftarrow>xs. g x)"
proof -
  have "f x = Inr (g x)" if "x \<in> set xs" for x
    using py_sum_InrD[OF assms(1) that] assms(2)[OF that] by auto
  from py_sum_eqI[of xs f g, OF this] assms(1) show ?thesis by simp
qed

lemma denom_of_Inr:
  assumes g: "\<And>R q pos. R \<in> set rankings \<Longrightarrow> (q, pos) \<in> set R \<Longrightarrow> map_of gs q = Some (g q)"
    and d: "denom_of gs rankings p = Inr d"
  shows "d = (\<Sum>R\<leftarrow>filter (\<lambda>R. p \<in> fst ` set R) rankings.
                \<Sum>(q, place)\<leftarrow>R. if reached R p place then 1 / still_in g R place else 0)"
proof -
  let ?t = "\<lambda>R place. if reached R p place then 1 / still_in g R place else 0"
  have inner: "v = (\<Sum>(q, place)\<leftarrow>R. ?t R place)"
    if R: "R \<in> set rankings" and v: "py_sum (place_term gs p R) (map snd R) = Inr v" for R v
  proof -
    have "v = (\<Sum>place\<leftarrow>map snd R. ?t R place)"
    proof (rule py_sum_cong_Inr[OF v])
      fix place w assume "place_term gs p R place = Inr w"
      then show "w = ?t R place"
        by (rule place_term_Inr[rotated]) (rule g[OF R])
    qed
    then show ?thesis by (simp add: comp_def case_prod_unfold)
  qed
  have "d = (\<Sum>R\<leftarrow>rankings. \<Sum>(q, place)\<leftarrow>R. ?t R place)"
    by (rule py_sum_cong_Inr[OF d[unfolded denom_of_def]]) (rule inner)
  also have "\<dots> = (\<Sum>R\<leftarrow>filter (\<lambda>R. p \<in> fst ` set R) rankings. \<Sum>(q, place)\<leftarrow>R. ?t R place)"
  proof (rule sum_list_map_filter[symmetric])
    fix R assume "R \<in> set rankings" "\<not> p \<in> fst ` set R"
    then have "map_of R p = None" by (simp add: map_of_eq_None_iff)
    then have "\<And>place. ?t R place = 0" by (simp add: reached_def)
    then show "(\<Sum>(q, place)\<leftarrow>R. ?t R place) = 0" by (simp add: case_prod_unfold)
  qed
  finally show ?thesis .
qed


lemmas denoms_eval = denoms_of_def denom_of_def place_term_def remaining_sum_def py_sum_def
  py_div_def dict_get_def


text \<open>
  Claim C1, as the specification states it, takes one term for each distinct position
  value of a ranking.  The code iterates over \<open>ranking.values()\<close>: in the first iteration
  on the single ranking \<open>{a: 1, b: 1}\<close> the denominator of \<open>a\<close> is \<open>2\<close>, one term for
  each of the two tied participants, where the specification's sum is \<open>1\<close>.
\<close>

theorem denoms_count_ties_counterexample:
  "denoms_of (players_of [[(''a'', 1), (''b'', 1)]])
      (gammas (pl_init (players_of [[(''a'', 1), (''b'', 1)]]))) [[(''a'', 1), (''b'', 1)]]
     = Inr [(''a'', 2), (''b'', 2)]
   \<and> spec_denom (\<lambda>q. 1 / 2) [[(''a'', 1), (''b'', 1)]] ''a'' = 1"
  by (simp add: denoms_eval players_of_def pl_init_def spec_denom_def reached_def still_in_def)


text \<open>
  Claim C1, amended: whenever an iteration computes its denominators from gamma values
  \<open>g\<close>, the denominator of a player \<open>p\<close> is the sum, over the rankings \<open>R\<close> that contain
  \<open>p\<close>, of one term for each participant of \<open>R\<close>, taken at that participant's position
  \<open>place\<close>: the term is \<open>1\<close> divided by the sum of \<open>g\<close> over the participants of \<open>R\<close> at
  position \<open>place\<close> or worse when \<open>p\<close>'s position is at least \<open>place\<close>, and \<open>0\<close> otherwise.
  A position shared by tied participants is counted once for each of them.
\<close>

theorem denoms_sum_per_participant:
  assumes g: "\<forall>R\<in>set rankings. \<forall>(q, pos)\<in>set R. map_of gs q = Some (g q)"
    and d: "denoms_of players gs rankings = Inr denoms"
    and p: "p \<in> set players"
  shows "map_of denoms p =
    Some (\<Sum>R\<leftarrow>filter (\<lambda>R. p \<in> fst ` set R) rankings.
            \<Sum>(q, place)\<leftarrow>R. if reached R p place then 1 / still_in g R place else 0)"
proof -
  let ?f = "\<lambda>player. case denom_of gs rankings player of
                          Inl e \<Rightarrow> Inl e | Inr d \<Rightarrow> Inr (player, d)"
  from d have all: "\<forall>x\<in>set players. \<not> isl (?f x)" and eq: "denoms = map (\<lambda>x. projr (?f x)) players"
    unfolding denoms_of_def map_err_iff by auto
  have val: "projr (?f x) = (x, projr (denom_of gs rankings x))" if "x \<in> set players" for x
    using all that by (auto split: sum.splits)
  have "denoms = map (\<lambda>x. (x, projr (denom_of gs rankings x))) players"
    unfolding eq using val by simp
  then have "map_of denoms p = Some (projr (denom_of gs rankings p))"
    using p by (simp add: map_of_map_restrict)
  moreover from all p obtain v where v: "denom_of gs rankings p = Inr v"
    by (cases "denom_of gs rankings p") auto
  moreover have "v = (\<Sum>R\<leftarrow>filter (\<lambda>R. p \<in> fst ` set R) rankings.
            \<Sum>(q, place)\<leftarrow>R. if reached R p place then 1 / still_in g R place else 0)"
    by (rule denom_of_Inr[OF _ v]) (use g in auto)
  ultimately show ?thesis by simp
qed

theorem denoms_sum_per_participant_witness:
  "denoms_of [''a'', ''b'', ''c''] [(''a'', 1 / 3), (''b'', 1 / 3), (''c'', 1 / 3)]
      [[(''a'', 1), (''b'', 1), (''c'', 2)]] = Inr [(''a'', 2), (''b'', 2), (''c'', 5)]
   \<and> map_of [(''a'', 2), (''b'', 2), (''c'', 5 :: real)] ''c'' =
     Some (\<Sum>R\<leftarrow>filter (\<lambda>R. ''c'' \<in> fst ` set R) [[(''a'', 1), (''b'', 1), (''c'', 2)]].
            \<Sum>(q, place)\<leftarrow>R. if reached R ''c'' place then 1 / still_in (\<lambda>q. 1 / 3) R place else 0)"
proof -
  have h1: "\<forall>R\<in>set [[(''a'', 1), (''b'', 1), (''c'', 2)]]. \<forall>(q, pos)\<in>set R.
      map_of [(''a'', 1 / 3), (''b'', 1 / 3), (''c'', 1 / 3 :: real)] q = Some (1 / 3)"
    by simp
  have h2: "denoms_of [''a'', ''b'', ''c''] [(''a'', 1 / 3), (''b'', 1 / 3), (''c'', 1 / 3)]
      [[(''a'', 1), (''b'', 1), (''c'', 2)]] = Inr [(''a'', 2), (''b'', 2), (''c'', 5)]"
    by (simp add: denoms_eval)
  have h3: "''c'' \<in> set [''a'', ''b'', ''c'']" by simp
  from denoms_sum_per_participant[OF h1 h2 h3] h2 show ?thesis by simp
qed

section \<open>Renormalisation\<close>

lemma map_err_eqI:
  "(\<And>x. x \<in> set xs \<Longrightarrow> f x = Inr (g x)) \<Longrightarrow> map_err f xs = Inr (map g xs)"
  by (induction xs) auto

lemma sum_list_divide_const:
  "(\<Sum>x\<leftarrow>xs. f x / c) = (\<Sum>x\<leftarrow>xs. f x) / (c :: real)"
  by (induction xs) (auto simp: add_divide_distrib)

lemma sum_list_pos_ne:
  assumes "xs \<noteq> []" and "\<forall>x\<in>set xs. 0 < (f x :: real)"
  shows "0 < (\<Sum>x\<leftarrow>xs. f x)"
proof (cases xs)
  case Nil
  with assms show ?thesis by simp
next
  case (Cons a ys)
  have "0 \<le> (\<Sum>x\<leftarrow>ys. f x)"
    by (rule sum_list_nonneg) (use assms Cons in \<open>auto simp: less_imp_le\<close>)
  moreover have "0 < f a" using assms Cons by simp
  ultimately show ?thesis using Cons by simp
qed

lemma normalize_ratings_pos:
  assumes "ratings \<noteq> []" and "\<forall>(p, v)\<in>set ratings. 0 < v"
  shows "normalize_ratings ratings =
           Inr (map (\<lambda>(p, v). (p, v / sum_list (map snd ratings))) ratings)"
    and "sum_list (map snd (map (\<lambda>(p, v). (p, v / sum_list (map snd ratings))) ratings)) = 1"
proof -
  let ?c = "sum_list (map snd ratings)"
  have c: "0 < ?c"
    using sum_list_pos_ne[of ratings snd] assms by (auto simp: case_prod_unfold)
  show "normalize_ratings ratings = Inr (map (\<lambda>(p, v). (p, v / ?c)) ratings)"
    unfolding normalize_ratings_def Let_def
    by (rule map_err_eqI) (use c in \<open>auto simp: py_div_def\<close>)
  have "sum_list (map snd (map (\<lambda>(p, v). (p, v / ?c)) ratings)) = (\<Sum>x\<leftarrow>ratings. snd x / ?c)"
    by (simp add: comp_def case_prod_unfold)
  also have "\<dots> = ?c / ?c" by (simp add: sum_list_divide_const)
  also have "\<dots> = 1" using c by simp
  finally show "sum_list (map snd (map (\<lambda>(p, v). (p, v / ?c)) ratings)) = 1" .
qed

text \<open>
  Claim C9: on a non-empty list of pairs with positive values, \<open>normalize_ratings\<close> returns
  the same competitors in the same order with values that sum to \<open>1\<close> (exactly, over the
  reals); and the report of \<open>main\<close>, once the fake player is deleted, divides the values
  of the first 20 pairs of the sorted list by the sum over these pairs only, so the
  reported values sum to \<open>1\<close>.
\<close>

theorem normalize_ratings_sums_to_one:
  "(ratings \<noteq> [] \<and> (\<forall>(p, v)\<in>set ratings. 0 < v) \<longrightarrow>
      (\<exists>out. normalize_ratings ratings = Inr out \<and> map fst out = map fst ratings
             \<and> sum_list (map snd out) = 1))
   \<and> (dict_del gs (Num 0) = Inr r \<and> r \<noteq> [] \<and> (\<forall>(p, v)\<in>set r. 0 < v) \<longrightarrow>
      (\<exists>out. post_process gs = Inr out \<and> sum_list (map snd out) = 1
             \<and> out = map (\<lambda>(p, v). (p, v / sum_list (map snd (take 20 (sort_key (\<lambda>x. - snd x) r)))))
                       (take 20 (sort_key (\<lambda>x. - snd x) r))))"
proof (intro conjI impI)
  assume a: "ratings \<noteq> [] \<and> (\<forall>(p, v)\<in>set ratings. 0 < v)"
  define out where "out = map (\<lambda>(p, v). (p, v / sum_list (map snd ratings))) ratings"
  from a have ne: "ratings \<noteq> []" by (rule conjunct1)
  from a have pos: "\<forall>(p, v)\<in>set ratings. 0 < v" by (rule conjunct2)
  have n1: "normalize_ratings ratings = Inr out"
    unfolding out_def by (rule normalize_ratings_pos(1)[OF ne pos])
  have n2: "sum_list (map snd out) = 1"
    unfolding out_def by (rule normalize_ratings_pos(2)[OF ne pos])
  have n3: "map fst out = map fst ratings"
    unfolding out_def by (simp add: comp_def case_prod_unfold)
  show "\<exists>out. normalize_ratings ratings = Inr out \<and> map fst out = map fst ratings
             \<and> sum_list (map snd out) = 1"
    using n1 n2 n3 by blast
next
  let ?srt = "sort_key (\<lambda>x. - snd x) r"
  let ?top = "take 20 ?srt"
  assume a: "dict_del gs (Num 0) = Inr r \<and> r \<noteq> [] \<and> (\<forall>(p, v)\<in>set r. 0 < v)"
  from a have del: "dict_del gs (Num 0) = Inr r" by (rule conjunct1)
  from a have rne: "r \<noteq> []" by (rule conjunct2[THEN conjunct1])
  from a have rpos: "\<forall>(p, v)\<in>set r. 0 < v" by (rule conjunct2[THEN conjunct2])
  have "length ?srt = length r" by (rule length_sort)
  with rne have "?srt \<noteq> []" by (cases ?srt) simp_all
  then have ne: "?top \<noteq> []" by (cases ?srt) simp_all
  have "set ?top \<subseteq> set ?srt" by (rule set_take_subset)
  then have sub: "set ?top \<subseteq> set r" by (simp only: set_sort)
  have pos: "\<forall>(p, v)\<in>set ?top. 0 < v"
  proof
    fix x assume "x \<in> set ?top"
    with sub have "x \<in> set r" by (rule subsetD)
    with rpos show "case x of (p, v) \<Rightarrow> 0 < v" by (rule bspec)
  qed
  have pp: "post_process gs = normalize_ratings ?top" by (simp add: post_process_def del)
  define out where "out = map (\<lambda>(p, v). (p, v / sum_list (map snd ?top))) ?top"
  have n1: "normalize_ratings ?top = Inr out"
    unfolding out_def by (rule normalize_ratings_pos(1)[OF ne pos])
  have n2: "sum_list (map snd out) = 1"
    unfolding out_def by (rule normalize_ratings_pos(2)[OF ne pos])
  have n0: "post_process gs = Inr out" using pp n1 by (rule trans)
  show "\<exists>out. post_process gs = Inr out \<and> sum_list (map snd out) = 1
             \<and> out = map (\<lambda>(p, v). (p, v / sum_list (map snd ?top))) ?top"
    using n0 n2 out_def by blast
qed


theorem normalize_ratings_sums_to_one_witness:
  "(\<exists>out. normalize_ratings [(''a'', 1 / 8), (''b'', 3 / 8)] = Inr out
       \<and> map fst out = map fst [(''a'', 1 / 8), (''b'', 3 / 8 :: real)]
       \<and> sum_list (map snd out) = 1)
   \<and> (\<exists>out. post_process [(Str ''a'', 1 / 8), (Num 0, 1 / 4), (Str ''b'', 3 / 8)] = Inr out
       \<and> sum_list (map snd out) = 1
       \<and> out = map (\<lambda>(p, v). (p, v / sum_list (map snd (take 20 (sort_key (\<lambda>x. - snd x)
                 [(Str ''a'', 1 / 8), (Str ''b'', 3 / 8)])))))
               (take 20 (sort_key (\<lambda>x. - snd x) [(Str ''a'', 1 / 8), (Str ''b'', 3 / 8)])))
   \<and> post_process [(Str ''a'', 1 / 8), (Num 0, 1 / 4), (Str ''b'', 3 / 8)]
       = Inr [(Str ''b'', 3 / 4), (Str ''a'', 1 / 4)]"
proof -
  have h1: "[(''a'', 1 / 8), (''b'', 3 / 8 :: real)] \<noteq> [] \<and>
      (\<forall>(p, v)\<in>set [(''a'', 1 / 8), (''b'', 3 / 8 :: real)]. 0 < v)"
    by simp
  have h2: "dict_del [(Str ''a'', 1 / 8), (Num 0, 1 / 4), (Str ''b'', 3 / 8 :: real)] (Num 0)
      = Inr [(Str ''a'', 1 / 8), (Str ''b'', 3 / 8)] \<and> [(Str ''a'', 1 / 8), (Str ''b'', 3 / 8 :: real)] \<noteq> [] \<and>
      (\<forall>(p, v)\<in>set [(Str ''a'', 1 / 8), (Str ''b'', 3 / 8 :: real)]. 0 < v)"
    by (simp add: dict_del_def)
  note inst = normalize_ratings_sums_to_one[of "[(''a'', 1 / 8), (''b'', 3 / 8)]"
      "[(Str ''a'', 1 / 8), (Num 0, 1 / 4), (Str ''b'', 3 / 8)]" "[(Str ''a'', 1 / 8), (Str ''b'', 3 / 8)]"]
  note c1 = inst[THEN conjunct1, THEN mp, OF h1]
  note c2 = inst[THEN conjunct2, THEN mp, OF h2]
  have c3: "post_process [(Str ''a'', 1 / 8), (Num 0, 1 / 4), (Str ''b'', 3 / 8)]
       = Inr [(Str ''b'', 3 / 4), (Str ''a'', 1 / 4)]"
    by (simp add: post_process_def dict_del_def normalize_ratings_def py_div_def)
  from c1 c2 c3 show ?thesis by (intro conjI)
qed

section \<open>The win counts\<close>

lemma counter_add_get:
  "counter_get (counter_add c k') k = counter_get c k + (if k = k' then 1 else 0)"
  by (auto simp: counter_get_def counter_add_def dict_set_map_of split: option.splits)

lemma counter_foldl:
  "counter_get (foldl counter_add c xs) k = counter_get c k + int (count_list xs k)"
  by (induction xs arbitrary: c) (auto simp: counter_add_get)

lemma Counter_count: "counter_get (Counter xs) k = int (count_list xs k)"
proof -
  have "counter_get ([] :: ('a \<times> int) list) k = 0" by (simp add: counter_get_def)
  then show ?thesis unfolding Counter_def counter_foldl by simp
qed

lemma count_list_concat_map:
  "count_list (concat (map h xs)) k = (\<Sum>x\<leftarrow>xs. count_list (h x) k)"
  by (induction xs) auto

lemma count_list_keys_filter:
  assumes "distinct (map fst R)"
  shows "count_list (map fst (filter P R)) p = (if \<exists>f. (p, f) \<in> set R \<and> P (p, f) then 1 else 0)"
  using assms
proof (induction R)
  case Nil
  show ?case by simp
next
  case (Cons x R)
  obtain q f where x: "x = (q, f)" by (cases x)
  from Cons.prems have d: "distinct (map fst R)" and nq: "q \<notin> fst ` set R" by (auto simp: x)
  note IH = Cons.IH[OF d]
  show ?case
  proof (cases "q = p")
    case True
    with nq have "\<And>f'. (p, f') \<notin> set R" by force
    with IH True show ?thesis by (auto simp: x)
  next
    case False
    with IH show ?thesis by (auto simp: x)
  qed
qed

lemma length_filter_sum: "int (length (filter Q xs)) = (\<Sum>x\<leftarrow>xs. if Q x then 1 else 0)"
  by (induction xs) auto

lemma ws_of_count:
  assumes "\<forall>R\<in>set rankings. distinct (map fst R)"
  shows "counter_get (ws_of rankings) p =
    int (length (filter (\<lambda>R. \<exists>f. (p, f) \<in> set R \<and> f < int (length R)) rankings))"
proof -
  let ?h = "\<lambda>ranking. map fst (filter (\<lambda>(name, finish). finish < int (length ranking)) ranking)"
  have "counter_get (ws_of rankings) p = int (\<Sum>R\<leftarrow>rankings. count_list (?h R) p)"
    by (simp add: ws_of_def Counter_count count_list_concat_map)
  also have "\<dots> = (\<Sum>R\<leftarrow>rankings. int (count_list (?h R) p))"
    by (induction rankings) auto
  also have "\<dots> = (\<Sum>R\<leftarrow>rankings. if \<exists>f. (p, f) \<in> set R \<and> f < int (length R) then 1 else 0)"
  proof (rule arg_cong[where f = sum_list], rule map_cong[OF refl])
    fix R assume "R \<in> set rankings"
    with assms have "distinct (map fst R)" by blast
    from count_list_keys_filter[OF this, of "\<lambda>(name, finish). finish < int (length R)" p]
    show "int (count_list (?h R) p) = (if \<exists>f. (p, f) \<in> set R \<and> f < int (length R) then 1 else 0)"
      by simp
  qed
  also have "\<dots> = int (length (filter (\<lambda>R. \<exists>f. (p, f) \<in> set R \<and> f < int (length R)) rankings))"
    by (simp only: length_filter_sum)
  finally show ?thesis .
qed



section \<open>The loop\<close>

lemma map_err_pairs:
  assumes "map_err (\<lambda>p. case F p of Inl e \<Rightarrow> Inl e | Inr v \<Rightarrow> Inr (p, v)) ps = Inr out"
  shows "out = map (\<lambda>p. (p, projr (F p))) ps"
    and "p \<in> set ps \<Longrightarrow> F p = Inr (projr (F p))"
proof -
  let ?f = "\<lambda>p. case F p of Inl e \<Rightarrow> Inl e | Inr v \<Rightarrow> Inr (p, v)"
  from assms have all: "\<forall>x\<in>set ps. \<not> isl (?f x)" and eq: "out = map (\<lambda>x. projr (?f x)) ps"
    unfolding map_err_iff by auto
  have r: "F x = Inr (projr (F x)) \<and> projr (?f x) = (x, projr (F x))" if "x \<in> set ps" for x
    using all that by (cases "F x") auto
  show "out = map (\<lambda>p. (p, projr (F p))) ps"
    unfolding eq using r by simp
  show "p \<in> set ps \<Longrightarrow> F p = Inr (projr (F p))" using r by blast
qed

lemma map_of_pairs: "p \<in> set ps \<Longrightarrow> map_of (map (\<lambda>p. (p, h p)) ps) p = Some (h p)"
  by (induction ps) auto

lemma new_gammas_Inr:
  assumes "new_gammas players ws denoms = Inr g'" and "p \<in> set players"
  shows "\<exists>d. map_of denoms p = Some d \<and> d \<noteq> 0
           \<and> map_of g' p = Some (real_of_int (counter_get ws p) / d)"
    and "map fst g' = players"
proof -
  let ?F = "\<lambda>p. case dict_get denoms p of Inl e \<Rightarrow> Inl e
                 | Inr d \<Rightarrow> py_div (real_of_int (counter_get ws p)) d"
  have alt: "new_gammas players ws denoms =
      map_err (\<lambda>p. case ?F p of Inl e \<Rightarrow> Inl e | Inr v \<Rightarrow> Inr (p, v)) players"
    unfolding new_gammas_def
    by (rule arg_cong[where f = "\<lambda>f. map_err f players"]) (auto split: sum.splits)
  note mp = map_err_pairs[OF assms(1)[unfolded alt]]
  from mp(1) show "map fst g' = players" by (simp add: comp_def)
  from mp(2)[OF assms(2)] have F: "?F p = Inr (projr (?F p))" .
  then obtain d where d: "map_of denoms p = Some d" "d \<noteq> 0"
     "projr (?F p) = real_of_int (counter_get ws p) / d"
    by (auto simp: dict_get_def py_div_def split: option.splits if_splits)
  from mp(1) assms(2) have "map_of g' p = Some (projr (?F p))" by (simp add: map_of_pairs)
  with d show "\<exists>d. map_of denoms p = Some d \<and> d \<noteq> 0
           \<and> map_of g' p = Some (real_of_int (counter_get ws p) / d)" by simp
qed

lemma gdiff_of_Inr:
  assumes "gdiff_of g' g0 = Inr gd"
    and "\<And>p. p \<in> fst ` set g' \<Longrightarrow> map_of g0 p = Some (old p)"
  shows "gd = (\<Sum>(p, gamma)\<leftarrow>g'. (gamma - old p) ^ 2)"
proof -
  have "gd = (\<Sum>x\<leftarrow>g'. case x of (p, gamma) \<Rightarrow> (gamma - old p) ^ 2)"
  proof (rule py_sum_cong_Inr[OF assms(1)[unfolded gdiff_of_def]])
    fix x v assume x: "x \<in> set g'"
      and v: "(case x of (player, gamma) \<Rightarrow> case dict_get g0 player of
                  Inl e \<Rightarrow> Inl e | Inr g0 \<Rightarrow> Inr ((gamma - g0) ^ 2)) = Inr v"
    obtain p gamma where xp: "x = (p, gamma)" by (cases x)
    from x xp have "map_of g0 p = Some (old p)" by (intro assms(2)) force
    with v xp show "v = (case x of (p, gamma) \<Rightarrow> (gamma - old p) ^ 2)"
      by (simp add: dict_get_def)
  qed
  then show ?thesis .
qed

lemma pl_body_Inr:
  assumes "pl_body players rankings ws s = Inr t"
  shows "\<exists>denoms. denoms_of players (gammas s) rankings = Inr denoms
            \<and> new_gammas players ws denoms = Inr (gammas t)
            \<and> gdiff_of (gammas t) (gammas s) = Inr (gdiff t)"
    and "prev_gammas t = gammas s" and "pgdiff t = gdiff s"
    and "iteration t = iteration s + 1"
    and "printed t = printed s @ [Progress (iteration t) (gdiff t)] @
           (if gdiff t > pgdiff t then [Newline, Increased (gdiff t) (pgdiff t)] else [])"
  using assms unfolding pl_body_def
  by (auto split: sum.splits)


lemma exits_after_0: "gdiff s \<le> 1 / 10 ^ 9 \<Longrightarrow> exits_after 0 players rankings ws s s"
  by (simp add: exits_after_def)

lemma exits_after_Suc:
  assumes "1 / 10 ^ 9 < gdiff s" and "pl_body players rankings ws s = Inr s'"
  shows "exits_after (Suc n) players rankings ws s u \<longleftrightarrow> exits_after n players rankings ws s' u"
proof
  assume a: "exits_after (Suc n) players rankings ws s u"
  show "exits_after n players rankings ws s' u"
    unfolding exits_after_def
  proof (intro conjI allI impI)
    from a assms(2) show "body_iter n players rankings ws s' = Inr u" "gdiff u \<le> 1 / 10 ^ 9"
      by (simp_all add: exits_after_def)
    fix m assume "m < n"
    then have "Suc m < Suc n" by simp
    with a obtain v where "body_iter (Suc m) players rankings ws s = Inr v" "1 / 10 ^ 9 < gdiff v"
      unfolding exits_after_def by blast
    with assms(2) show "\<exists>v. body_iter m players rankings ws s' = Inr v \<and> 1 / 10 ^ 9 < gdiff v"
      by simp
  qed
next
  assume a: "exits_after n players rankings ws s' u"
  show "exits_after (Suc n) players rankings ws s u"
    unfolding exits_after_def
  proof (intro conjI allI impI)
    from a assms(2) show "body_iter (Suc n) players rankings ws s = Inr u" "gdiff u \<le> 1 / 10 ^ 9"
      by (simp_all add: exits_after_def)
    fix m assume m: "m < Suc n"
    show "\<exists>v. body_iter m players rankings ws s = Inr v \<and> 1 / 10 ^ 9 < gdiff v"
    proof (cases m)
      case 0
      with assms(1) show ?thesis by simp
    next
      case (Suc k)
      with m have "k < n" by simp
      with a obtain v where "body_iter k players rankings ws s' = Inr v" "1 / 10 ^ 9 < gdiff v"
        unfolding exits_after_def by blast
      with assms(2) Suc show ?thesis by simp
    qed
  qed
qed

lemma exits_after_not_0:
  assumes "1 / 10 ^ 9 < gdiff s" and "exits_after n players rankings ws s u"
  shows "\<exists>k s'. n = Suc k \<and> pl_body players rankings ws s = Inr s'"
proof (cases n)
  case 0
  with assms show ?thesis by (simp add: exits_after_def)
next
  case (Suc k)
  with assms(2) have "body_iter (Suc k) players rankings ws s = Inr u" by (simp add: exits_after_def)
  then obtain s' where "pl_body players rankings ws s = Inr s'"
    by (cases "pl_body players rankings ws s") auto
  with Suc show ?thesis by blast
qed

lemma pl_while_complete:
  "exits_after n players rankings ws s u \<Longrightarrow> pl_while players rankings ws s = Some (Inr u)"
proof (induction n arbitrary: s)
  case 0
  then show ?case by (subst pl_while.simps) (simp add: exits_after_def)
next
  case (Suc n)
  from Suc.prems have "\<exists>v. body_iter 0 players rankings ws s = Inr v \<and> 1 / 10 ^ 9 < gdiff v"
    unfolding exits_after_def by blast
  then have big: "1 / 10 ^ 9 < gdiff s" by simp
  from exits_after_not_0[OF big Suc.prems] obtain s' where
    b: "pl_body players rankings ws s = Inr s'" by blast
  from Suc.prems have "exits_after n players rankings ws s' u"
    by (simp only: exits_after_Suc[OF big b])
  from Suc.IH[OF this] big b show ?case by (subst pl_while.simps) simp
qed

lemma pl_while_sound:
  assumes "pl_while players rankings ws s = Some r"
  shows "\<forall>u. r = Inr u \<longrightarrow> (\<exists>n. exits_after n players rankings ws s u)"
proof (rule pl_while.raw_induct[where P = "\<lambda>players rankings ws s r.
          \<forall>u. r = Inr u \<longrightarrow> (\<exists>n. exits_after n players rankings ws s u)", OF _ assms])
  fix pl_while' :: "'a list \<Rightarrow> 'a ranking list \<Rightarrow> ('a \<times> int) list \<Rightarrow> 'a pl_state
      \<Rightarrow> ('a error + 'a pl_state) option"
  fix players rankings ws s r
  assume IH: "\<And>players rankings ws s r. pl_while' players rankings ws s = Some r \<Longrightarrow>
        \<forall>u. r = Inr u \<longrightarrow> (\<exists>n. exits_after n players rankings ws s u)"
    and step: "(if 1 / 10 ^ 9 < gdiff s
        then case pl_body players rankings ws s of Inl e \<Rightarrow> Some (Inl e)
             | Inr s' \<Rightarrow> pl_while' players rankings ws s'
        else Some (Inr s)) = Some r"
  show "\<forall>u. r = Inr u \<longrightarrow> (\<exists>n. exits_after n players rankings ws s u)"
  proof (cases "1 / 10 ^ 9 < gdiff s")
    case False
    with step have "r = Inr s" by simp
    moreover from False have "exits_after 0 players rankings ws s s" by (simp add: exits_after_0)
    ultimately show ?thesis by blast
  next
    case big: True
    show ?thesis
    proof (cases "pl_body players rankings ws s")
      case (Inl e)
      with big step have "r = Inl e" by simp
      then show ?thesis by simp
    next
      case (Inr s')
      with big step have "pl_while' players rankings ws s' = Some r" by simp
      note IH' = IH[OF this]
      show ?thesis
      proof (intro allI impI)
        fix u assume "r = Inr u"
        with IH' obtain n where "exits_after n players rankings ws s' u" by blast
        then have "exits_after (Suc n) players rankings ws s u"
          by (simp only: exits_after_Suc[OF big Inr])
        then show "\<exists>n. exits_after n players rankings ws s u" ..
      qed
    qed
  qed
qed

lemma pl_while_iff:
  "pl_while players rankings ws s = Some (Inr u) \<longleftrightarrow> (\<exists>n. exits_after n players rankings ws s u)"
proof
  assume "pl_while players rankings ws s = Some (Inr u)"
  from pl_while_sound[OF this] show "\<exists>n. exits_after n players rankings ws s u" by simp
next
  assume "\<exists>n. exits_after n players rankings ws s u"
  then obtain n where "exits_after n players rankings ws s u" ..
  then show "pl_while players rankings ws s = Some (Inr u)" by (rule pl_while_complete)
qed

lemma new_gammas_fun:
  assumes "new_gammas players ws denoms = Inr g'"
  shows "\<exists>h. g' = map (\<lambda>p. (p, h p)) players \<and>
     (\<forall>p\<in>set players. \<exists>d. map_of denoms p = Some d \<and> d \<noteq> 0
         \<and> h p = real_of_int (counter_get ws p) / d)"
proof -
  let ?F = "\<lambda>p. case dict_get denoms p of Inl e \<Rightarrow> Inl e
                 | Inr d \<Rightarrow> py_div (real_of_int (counter_get ws p)) d"
  define h where "h = (\<lambda>p. projr (?F p))"
  have alt: "new_gammas players ws denoms =
      map_err (\<lambda>p. case ?F p of Inl e \<Rightarrow> Inl e | Inr v \<Rightarrow> Inr (p, v)) players"
    unfolding new_gammas_def
    by (rule arg_cong[where f = "\<lambda>f. map_err f players"]) (auto split: sum.splits)
  note mp = map_err_pairs[OF assms(1)[unfolded alt]]
  have 1: "g' = map (\<lambda>p. (p, h p)) players" unfolding h_def by (rule mp(1))
  have 2: "\<exists>d. map_of denoms p = Some d \<and> d \<noteq> 0 \<and> h p = real_of_int (counter_get ws p) / d"
    if "p \<in> set players" for p
  proof -
    from mp(2)[OF that] have "?F p = Inr (h p)" unfolding h_def .
    then show ?thesis
      by (auto simp: dict_get_def py_div_def split: option.splits if_splits)
  qed
  from 1 2 show ?thesis by blast
qed

lemma pl_body_update:
  assumes old: "\<forall>p\<in>set players. map_of (gammas s) p = Some (g p)"
    and body: "pl_body players rankings ws s = Inr t"
  shows "\<exists>denoms g'. denoms_of players (gammas s) rankings = Inr denoms
        \<and> gammas t = map (\<lambda>p. (p, g' p)) players
        \<and> (\<forall>p\<in>set players. \<exists>d. map_of denoms p = Some d
               \<and> g' p = real_of_int (counter_get ws p) / d)
        \<and> gdiff t = (\<Sum>p\<leftarrow>players. (g' p - g p) ^ 2)"
proof -
  from pl_body_Inr(1)[OF body] obtain denoms where
    d: "denoms_of players (gammas s) rankings = Inr denoms"
    and n: "new_gammas players ws denoms = Inr (gammas t)"
    and gd: "gdiff_of (gammas t) (gammas s) = Inr (gdiff t)" by blast
  from new_gammas_fun[OF n] obtain g' where
    g': "gammas t = map (\<lambda>p. (p, g' p)) players"
    and q: "\<forall>p\<in>set players. \<exists>d. map_of denoms p = Some d \<and> d \<noteq> 0
         \<and> g' p = real_of_int (counter_get ws p) / d" by blast
  have "gdiff t = (\<Sum>(p, gamma)\<leftarrow>gammas t. (gamma - g p) ^ 2)"
  proof (rule gdiff_of_Inr[OF gd])
    fix p assume "p \<in> fst ` set (gammas t)"
    then have "p \<in> set players" unfolding g' by auto
    with old show "map_of (gammas s) p = Some (g p)" by blast
  qed
  also have "\<dots> = (\<Sum>p\<leftarrow>players. (g' p - g p) ^ 2)"
    unfolding g' by (simp add: comp_def)
  finally have gdt: "gdiff t = (\<Sum>p\<leftarrow>players. (g' p - g p) ^ 2)" .
  from q have q': "\<forall>p\<in>set players. \<exists>d. map_of denoms p = Some d
               \<and> g' p = real_of_int (counter_get ws p) / d" by blast
  from d g' q' gdt show ?thesis by blast
qed

lemmas body_eval = pl_body_def new_gammas_def gdiff_of_def denoms_of_def denom_of_def
  place_term_def remaining_sum_def py_sum_def py_div_def dict_get_def counter_get_def
  power2_eq_square

lemma w1: "pl_body [''a'', ''b''] Rsym [(''a'', 1), (''b'', 1)] s14 = Inr t15"
  by (simp add: Rsym_def s14_def t15_def body_eval)

lemma w2: "exits_after 1 [''a'', ''b''] Rsym [(''a'', 1), (''b'', 1)] s14 t15"
  unfolding exits_after_def
  by (simp add: w1) (simp add: s14_def t15_def)



text \<open>
  Claim C2: the loop returns state \<open>u\<close> exactly when, for some \<open>n\<close>, \<open>n\<close> runs of the body
  succeed, the statistic \<open>gdiff\<close> is above \<open>1e-9\<close> before each of them and at most \<open>1e-9\<close>
  after the last; and a run of the body from gammas \<open>g\<close> computes every denominator from
  \<open>g\<close>, sets the gamma of every player \<open>p\<close> to \<open>W[p] / denom[p]\<close> in a new dict, and
  sets \<open>gdiff\<close> to the sum over the players of the squared difference of the new and the
  previous gamma.
\<close>

theorem loop_exit_and_update:
  assumes "\<forall>p\<in>set players. map_of (gammas s) p = Some (g p)"
  shows "(pl_while players rankings ws s = Some (Inr u) \<longleftrightarrow>
            (\<exists>n. exits_after n players rankings ws s u))
     \<and> (pl_body players rankings ws s = Inr t \<longrightarrow>
          (\<exists>denoms g'. denoms_of players (gammas s) rankings = Inr denoms
            \<and> gammas t = map (\<lambda>p. (p, g' p)) players
            \<and> (\<forall>p\<in>set players. \<exists>d. map_of denoms p = Some d
                   \<and> g' p = real_of_int (counter_get ws p) / d)
            \<and> gdiff t = (\<Sum>p\<leftarrow>players. (g' p - g p) ^ 2)))"
proof (rule conjI)
  show "pl_while players rankings ws s = Some (Inr u) \<longleftrightarrow>
            (\<exists>n. exits_after n players rankings ws s u)"
    by (rule pl_while_iff)
  show "pl_body players rankings ws s = Inr t \<longrightarrow>
          (\<exists>denoms g'. denoms_of players (gammas s) rankings = Inr denoms
            \<and> gammas t = map (\<lambda>p. (p, g' p)) players
            \<and> (\<forall>p\<in>set players. \<exists>d. map_of denoms p = Some d
                   \<and> g' p = real_of_int (counter_get ws p) / d)
            \<and> gdiff t = (\<Sum>p\<leftarrow>players. (g' p - g p) ^ 2))"
    by (rule impI) (rule pl_body_update[OF assms])
qed

theorem loop_exit_and_update_witness:
  "pl_while [''a'', ''b''] Rsym [(''a'', 1), (''b'', 1)] s14 = Some (Inr t15)
   \<and> (\<exists>denoms g'. denoms_of [''a'', ''b''] (gammas s14) Rsym = Inr denoms
            \<and> gammas t15 = map (\<lambda>p. (p, g' p)) [''a'', ''b'']
            \<and> (\<forall>p\<in>set [''a'', ''b'']. \<exists>d. map_of denoms p = Some d
                   \<and> g' p = real_of_int (counter_get [(''a'', 1), (''b'', 1)] p) / d)
            \<and> gdiff t15 = (\<Sum>p\<leftarrow>[''a'', ''b'']. (g' p - 1 / 32768) ^ 2))"
proof -
  have h: "\<forall>p\<in>set [''a'', ''b'']. map_of (gammas s14) p = Some (1 / 32768)"
    by (simp add: s14_def)
  note inst = loop_exit_and_update[of "[''a'', ''b'']" s14 "\<lambda>p. 1 / 32768" Rsym
      "[(''a'', 1), (''b'', 1)]" t15 t15, OF h]
  have "\<exists>n. exits_after n [''a'', ''b''] Rsym [(''a'', 1), (''b'', 1)] s14 t15"
    using w2 by (rule exI)
  then have c1: "pl_while [''a'', ''b''] Rsym [(''a'', 1), (''b'', 1)] s14 = Some (Inr t15)"
    by (rule inst[THEN conjunct1, THEN iffD2])
  note c2 = inst[THEN conjunct2, THEN mp, OF w1]
  from c1 c2 show ?thesis by (rule conjI)
qed

text \<open>
  Claim C3: \<open>ws[player]\<close> is the number of rankings in which the player's position is
  strictly less than the number of participants, and every run of the loop body divides
  this one count, passed unchanged to every iteration, by the player's denominator.
\<close>

theorem ws_counts_not_last:
  assumes "\<forall>R\<in>set rankings. distinct (map fst R)"
  shows "counter_get (ws_of rankings) p =
      int (length (filter (\<lambda>R. \<exists>f. (p, f) \<in> set R \<and> f < int (length R)) rankings))
    \<and> (pl_body players rankings (ws_of rankings) s = Inr t \<longrightarrow>
        (\<exists>denoms. denoms_of players (gammas s) rankings = Inr denoms \<and>
          (\<forall>q\<in>set players. \<exists>d. map_of denoms q = Some d \<and>
             map_of (gammas t) q = Some (real (length (filter
                (\<lambda>R. \<exists>f. (q, f) \<in> set R \<and> f < int (length R)) rankings)) / d))))"
proof (intro conjI impI)
  show "counter_get (ws_of rankings) p =
      int (length (filter (\<lambda>R. \<exists>f. (p, f) \<in> set R \<and> f < int (length R)) rankings))"
    by (rule ws_of_count[OF assms])
next
  assume body: "pl_body players rankings (ws_of rankings) s = Inr t"
  from pl_body_Inr(1)[OF body] obtain denoms where
    d: "denoms_of players (gammas s) rankings = Inr denoms"
    and n: "new_gammas players (ws_of rankings) denoms = Inr (gammas t)" by blast
  have "\<exists>d. map_of denoms q = Some d \<and>
             map_of (gammas t) q = Some (real (length (filter
                (\<lambda>R. \<exists>f. (q, f) \<in> set R \<and> f < int (length R)) rankings)) / d)"
    if q: "q \<in> set players" for q
  proof -
    from new_gammas_Inr(1)[OF n q] obtain d where
      "map_of denoms q = Some d"
      "map_of (gammas t) q = Some (real_of_int (counter_get (ws_of rankings) q) / d)" by blast
    then show ?thesis unfolding ws_of_count[OF assms] by simp
  qed
  with d show "\<exists>denoms. denoms_of players (gammas s) rankings = Inr denoms \<and>
          (\<forall>q\<in>set players. \<exists>d. map_of denoms q = Some d \<and>
             map_of (gammas t) q = Some (real (length (filter
                (\<lambda>R. \<exists>f. (q, f) \<in> set R \<and> f < int (length R)) rankings)) / d))"
    by blast
qed

lemma R3_ws: "ws_of R3 = [(''a'', 1), (''b'', 2)]"
  by (simp add: R3_def ws_of_def Counter_def counter_add_def)

lemma R3_step1: "pl_body [''c'', ''b'', ''a''] R3 (ws_of R3) (pl_init [''c'', ''b'', ''a'']) = Inr t1"
  unfolding R3_ws by (simp add: R3_def t1_def pl_init_def body_eval)

theorem ws_counts_not_last_witness:
  "counter_get (ws_of R3) ''b'' = 2
   \<and> int (length (filter (\<lambda>R. \<exists>f. (''b'', f) \<in> set R \<and> f < int (length R)) R3)) = 2
   \<and> (\<exists>denoms. denoms_of [''c'', ''b'', ''a''] (gammas (pl_init [''c'', ''b'', ''a''])) R3 = Inr denoms \<and>
          (\<forall>q\<in>set [''c'', ''b'', ''a'']. \<exists>d. map_of denoms q = Some d \<and>
             map_of (gammas t1) q = Some (real (length (filter
                (\<lambda>R. \<exists>f. (q, f) \<in> set R \<and> f < int (length R)) R3)) / d)))"
proof -
  have h: "\<forall>R\<in>set R3. distinct (map fst R)" by (simp add: R3_def)
  note inst = ws_counts_not_last[OF h, of "''b''" "[''c'', ''b'', ''a'']" "pl_init [''c'', ''b'', ''a'']" t1]
  have e: "counter_get (ws_of R3) ''b'' = 2" by (simp add: R3_ws counter_get_def)
  from inst[THEN conjunct1] e
  have c1: "int (length (filter (\<lambda>R. \<exists>f. (''b'', f) \<in> set R \<and> f < int (length R)) R3)) = 2"
    by (simp only:)
  note c2 = inst[THEN conjunct2, THEN mp, OF R3_step1]
  from e c1 c2 show ?thesis by (intro conjI)
qed

lemma pl_body_returns:
  assumes "denoms_of players (gammas s) rankings = Inr denoms"
    and "new_gammas players ws denoms = Inr g'"
    and "gdiff_of g' (gammas s) = Inr gd"
  shows "pl_body players rankings ws s =
     Inr \<lparr> gammas = g', prev_gammas = gammas s, gdiff = gd, pgdiff = gdiff s,
           iteration = iteration s + 1,
           printed = printed s @ [Progress (iteration s + 1) gd] @
             (if gd > gdiff s then [Newline, Increased gd (gdiff s)] else []) \<rparr>"
  unfolding pl_body_def by (simp add: assms)

text \<open>
  Claim C5: when the three computations of an iteration succeed and the new statistic is
  larger than the one before it, the body returns (it raises nothing): the new state
  holds the new gammas and the new statistic, and the progress line is followed by an
  empty line and the diagnostic line; the loop, if it was running, enters the body again
  from the new state; and a run of the loop that returns ends with a statistic of at most
  \<open>1e-9\<close>.
\<close>

theorem gdiff_increase_not_fatal:
  assumes "denoms_of players (gammas s) rankings = Inr denoms"
    and "new_gammas players ws denoms = Inr g'"
    and "gdiff_of g' (gammas s) = Inr gd"
    and "gdiff s < gd"
  shows "(\<exists>t. pl_body players rankings ws s = Inr t
          \<and> gammas t = g' \<and> gdiff t = gd \<and> pgdiff t = gdiff s
          \<and> printed t = printed s @
               [Progress (iteration s + 1) gd, Newline, Increased gd (gdiff s)]
          \<and> (1 / 10 ^ 9 < gdiff s \<longrightarrow>
               pl_while players rankings ws s =
                 (case pl_body players rankings ws t of
                    Inl e \<Rightarrow> Some (Inl e)
                  | Inr t' \<Rightarrow> pl_while players rankings ws t')))
     \<and> (\<forall>u. pl_while players rankings ws s = Some (Inr u) \<longrightarrow> gdiff u \<le> 1 / 10 ^ 9)"
proof (rule conjI)
  define t where "t = \<lparr> gammas = g', prev_gammas = gammas s, gdiff = gd, pgdiff = gdiff s,
           iteration = iteration s + 1,
           printed = printed s @ [Progress (iteration s + 1) gd, Newline, Increased gd (gdiff s)] \<rparr>"
  have body: "pl_body players rankings ws s = Inr t"
    unfolding t_def using pl_body_returns[OF assms(1-3)] assms(4) by simp
  have sel: "gammas t = g'" "gdiff t = gd" "pgdiff t = gdiff s"
    "printed t = printed s @ [Progress (iteration s + 1) gd, Newline, Increased gd (gdiff s)]"
    by (simp_all add: t_def)
  have cont: "pl_while players rankings ws s =
                 (case pl_body players rankings ws t of
                    Inl e \<Rightarrow> Some (Inl e)
                  | Inr t' \<Rightarrow> pl_while players rankings ws t')"
    if big: "1 / 10 ^ 9 < gdiff s"
  proof -
    from big assms(4) sel(2) have bigt: "1 / 10 ^ 9 < gdiff t" by simp
    have "pl_while players rankings ws s = pl_while players rankings ws t"
      using big body by (subst pl_while.simps) simp
    also have "\<dots> = (case pl_body players rankings ws t of
               Inl e \<Rightarrow> Some (Inl e)
             | Inr t' \<Rightarrow> pl_while players rankings ws t')"
      using bigt by (subst pl_while.simps) simp
    finally show ?thesis .
  qed
  from body sel cont
  show "\<exists>t. pl_body players rankings ws s = Inr t
          \<and> gammas t = g' \<and> gdiff t = gd \<and> pgdiff t = gdiff s
          \<and> printed t = printed s @
               [Progress (iteration s + 1) gd, Newline, Increased gd (gdiff s)]
          \<and> (1 / 10 ^ 9 < gdiff s \<longrightarrow>
               pl_while players rankings ws s =
                 (case pl_body players rankings ws t of
                    Inl e \<Rightarrow> Some (Inl e)
                  | Inr t' \<Rightarrow> pl_while players rankings ws t'))"
    by blast
next
  show "\<forall>u. pl_while players rankings ws s = Some (Inr u) \<longrightarrow> gdiff u \<le> 1 / 10 ^ 9"
  proof (intro allI impI)
    fix u assume "pl_while players rankings ws s = Some (Inr u)"
    from pl_while_sound[OF this] obtain n where "exits_after n players rankings ws s u" by blast
    then show "gdiff u \<le> 1 / 10 ^ 9" by (simp add: exits_after_def)
  qed
qed

lemma R0_players: "players_of R0 = [''c'', ''a'', ''b'']"
  by (simp add: R0_def players_of_def)

lemma R0_ws: "ws_of R0 = [(''a'', 2), (''c'', 1), (''b'', 1)]"
  by (simp add: R0_def ws_of_def Counter_def counter_add_def)

lemma R0_init: "pl_init (players_of R0) = \<lparr>gammas = [(''c'', 1 / 3), (''a'', 1 / 3), (''b'', 1 / 3)],
        prev_gammas = [(''c'', 0), (''a'', 0), (''b'', 0)],
        gdiff = 10, pgdiff = 100, iteration = 0, printed = []\<rparr>"
  by (simp add: R0_players pl_init_def)

lemma R0_step1: "pl_body (players_of R0) R0 (ws_of R0) (pl_init (players_of R0)) = Inr s1"
  unfolding R0_init unfolding R0_players R0_ws by (simp add: R0_def s1_def body_eval)

lemma R0_step2: "pl_body (players_of R0) R0 (ws_of R0) s1 = Inr s2"
  unfolding R0_players R0_ws by (simp add: R0_def s1_def s2_def body_eval)

lemma R0_reach: "body_iter 2 (players_of R0) R0 (ws_of R0) (pl_init (players_of R0)) = Inr s2"
  by (simp add: numeral_2_eq_2 R0_step1 R0_step2)

lemma R0_denoms: "denoms_of (players_of R0) (gammas s2) R0 = Inr D2"
  unfolding R0_players by (simp add: R0_def s2_def D2_def denoms_eval)

lemma R0_new: "new_gammas (players_of R0) (ws_of R0) D2 = Inr (gammas t3)"
  unfolding R0_players R0_ws by (simp add: D2_def t3_def new_gammas_def dict_get_def py_div_def counter_get_def)

lemma R0_gdiff: "gdiff_of (gammas t3) (gammas s2) = Inr (gdiff t3)"
  by (simp add: s2_def t3_def gdiff_of_def dict_get_def py_sum_def power2_eq_square)

theorem gdiff_increase_not_fatal_witness:
  "body_iter 2 (players_of R0) R0 (ws_of R0) (pl_init (players_of R0)) = Inr s2
   \<and> gdiff s2 < gdiff t3
   \<and> (\<exists>t. pl_body (players_of R0) R0 (ws_of R0) s2 = Inr t
          \<and> gammas t = gammas t3 \<and> gdiff t = gdiff t3 \<and> pgdiff t = gdiff s2
          \<and> printed t = printed s2 @
               [Progress (iteration s2 + 1) (gdiff t3), Newline, Increased (gdiff t3) (gdiff s2)]
          \<and> (1 / 10 ^ 9 < gdiff s2 \<longrightarrow>
               pl_while (players_of R0) R0 (ws_of R0) s2 =
                 (case pl_body (players_of R0) R0 (ws_of R0) t of
                    Inl e \<Rightarrow> Some (Inl e)
                  | Inr t' \<Rightarrow> pl_while (players_of R0) R0 (ws_of R0) t')))"
proof -
  have inc: "gdiff s2 < gdiff t3" by (simp add: s2_def t3_def)
  note inst = gdiff_increase_not_fatal[OF R0_denoms R0_new R0_gdiff inc]
  note c = inst[THEN conjunct1]
  from R0_reach inc c show ?thesis by (intro conjI)
qed

section \<open>The validator: the flags of \<open>pc\<close>\<close>

lemma dict_set_keys:
  "map fst (dict_set d k v) = (if k \<in> fst ` set d then map fst d else map fst d @ [k])"
proof (induction d)
  case Nil
  show ?case by simp
next
  case (Cons x d)
  obtain k' v' where x: "x = (k', v')" by (cases x)
  show ?case
  proof (cases "k' = k")
    case True
    then show ?thesis by (simp add: x)
  next
    case False
    then show ?thesis using Cons.IH by (simp add: x)
  qed
qed

lemma dict_set_distinct: "distinct (map fst d) \<Longrightarrow> distinct (map fst (dict_set d k v))"
  by (simp add: dict_set_keys)

lemma dict_set_entries:
  "x \<in> set (dict_set d k v) \<Longrightarrow> x \<in> set d \<or> x = (k, v)"
  by (induction d) (auto split: if_splits)

lemma flags_clear_win:
  "flags_of (clear_win pc0 u) k = (if k = u then (0, snd (flags_of pc0 u)) else flags_of pc0 k)"
  by (simp add: flags_of_def clear_win_def dict_set_map_of)

lemma flags_clear_loss:
  "flags_of (clear_loss pc0 u) k = (if k = u then (fst (flags_of pc0 u), 0) else flags_of pc0 k)"
  by (simp add: flags_of_def clear_loss_def dict_set_map_of)

lemma one_cleared_win: "one_cleared pc0 \<Longrightarrow> one_cleared (clear_win pc0 u)"
  unfolding one_cleared_def clear_win_def
  by (auto simp: dict_set_distinct dest!: dict_set_entries)

lemma one_cleared_loss: "one_cleared pc0 \<Longrightarrow> one_cleared (clear_loss pc0 u)"
  unfolding one_cleared_def clear_loss_def
  by (auto simp: dict_set_distinct dest!: dict_set_entries)

lemma one_cleared_step: "one_cleared (pc s) \<Longrightarrow> one_cleared (pc (check_step s item))"
  unfolding check_step_def
  by (auto simp: Let_def one_cleared_win one_cleared_loss split: prod.splits option.splits)

lemma one_cleared_foldl: "one_cleared (pc s) \<Longrightarrow> one_cleared (pc (foldl check_step s game))"
  by (induction game arbitrary: s) (auto simp: one_cleared_step)

lemma one_cleared_game: "one_cleared pc0 \<Longrightarrow> one_cleared (pc (check_game pc0 game))"
  unfolding check_game_def by (rule one_cleared_foldl) simp

lemma one_cleared_games:
  "one_cleared pc0 \<Longrightarrow> one_cleared (foldl (\<lambda>pc0 game. pc (check_game pc0 game)) pc0 games)"
  by (induction games arbitrary: pc0) (auto simp: one_cleared_game)

lemma one_cleared_check_pc: "one_cleared (check_pc games)"
  unfolding check_pc_def by (rule one_cleared_games) (simp add: one_cleared_def)

lemma classify_one_cleared:
  assumes "\<forall>(u, w, l)\<in>set pc0. w = 0 \<or> l = 0"
  shows "classify pc0 winners losers =
     Inr (winners @ map fst (filter (\<lambda>(u, w, l). w = 0 \<and> l \<noteq> 0) pc0),
          losers @ map fst (filter (\<lambda>(u, w, l). w \<noteq> 0) pc0))"
  using assms
proof (induction pc0 arbitrary: winners losers)
  case Nil
  show ?case by simp
next
  case (Cons x rest)
  obtain u w l where x: "x = (u, w, l)" by (cases x)
  from Cons.prems have wl: "w = 0 \<or> l = 0" and rest: "\<forall>(u, w, l)\<in>set rest. w = 0 \<or> l = 0"
    by (auto simp: x)
  note IH = Cons.IH[OF rest]
  from wl show ?case unfolding x by (auto simp: IH)
qed

lemma filter_keys_disjoint:
  assumes "distinct (map fst d)" and "\<And>x. x \<in> set d \<Longrightarrow> \<not> (P x \<and> Q x)"
  shows "set (map fst (filter P d)) \<inter> set (map fst (filter Q d)) = {}"
proof (rule ccontr)
  assume "set (map fst (filter P d)) \<inter> set (map fst (filter Q d)) \<noteq> {}"
  then obtain k where "k \<in> set (map fst (filter P d))" "k \<in> set (map fst (filter Q d))" by blast
  then obtain v v' where a: "(k, v) \<in> set d" "P (k, v)" and b: "(k, v') \<in> set d" "Q (k, v')"
    by auto
  from assms(1) a(1) b(1) have "v = v'" by (meson eq_key_imp_eq_value)
  with a b assms(2) show False by blast
qed


lemma check_step_sel:
  "max_rank (check_step st (user, rank)) = max (max_rank st) rank"
  "max_user (check_step st (user, rank)) = (if max_rank st < rank then Some user else max_user st)"
  by (auto simp: check_step_def Let_def)

lemma check_step_pc:
  "pc (check_step st (user, rank)) =
     (let pc1 = (if 1 < rank then clear_loss (pc st) user else pc st) in
      if max_rank st < rank then
        (case max_user st of None \<Rightarrow> pc1 | Some h \<Rightarrow> if truthy h then clear_win pc1 h else pc1)
      else if rank < max_rank st then clear_win pc1 user else pc1)"
  by (auto simp: check_step_def Let_def)

lemma scan_max_all:
  "max_rank st \<le> max_rank (foldl check_step st game)
   \<and> (\<forall>(q, r)\<in>set game. r \<le> max_rank (foldl check_step st game))
   \<and> (max_rank (foldl check_step st game) = max_rank st
       \<or> max_rank (foldl check_step st game) \<in> snd ` set game)"
proof (induction game arbitrary: st)
  case Nil
  show ?case by simp
next
  case (Cons x game)
  obtain u r where x: "x = (u, r)" by (cases x)
  let ?st = "check_step st (u, r)"
  let ?fin = "foldl check_step ?st game"
  have fin: "foldl check_step st (x # game) = ?fin" by (simp add: x)
  have m: "max_rank ?st = max (max_rank st) r" by (rule check_step_sel)
  from Cons.IH[of ?st] have 1: "max_rank ?st \<le> max_rank ?fin"
    and 2: "\<forall>(q, r)\<in>set game. r \<le> max_rank ?fin"
    and 3: "max_rank ?fin = max_rank ?st \<or> max_rank ?fin \<in> snd ` set game" by blast+
  from 1 m have a: "max_rank st \<le> max_rank ?fin" and b: "r \<le> max_rank ?fin" by simp_all
  from b 2 have c: "\<forall>(q, r)\<in>set (x # game). r \<le> max_rank ?fin" by (simp add: x)
  from 3 m have d: "max_rank ?fin = max_rank st \<or> max_rank ?fin \<in> snd ` set (x # game)"
    by (auto simp: x max_def split: if_splits)
  from a c d show ?case unfolding fin by blast
qed

lemmas scan_max = scan_max_all[THEN conjunct1] scan_max_all[THEN conjunct2, THEN conjunct1]
  scan_max_all[THEN conjunct2, THEN conjunct2]

lemma scan_holder:
  "(max_rank st < max_rank (foldl check_step st game) \<longrightarrow>
      (\<exists>pre u post. game = pre @ (u, max_rank (foldl check_step st game)) # post
         \<and> (\<forall>(q, r)\<in>set pre. r < max_rank (foldl check_step st game))
         \<and> max_user (foldl check_step st game) = Some u))
   \<and> (max_rank (foldl check_step st game) = max_rank st \<longrightarrow>
         max_user (foldl check_step st game) = max_user st)"
proof (induction game arbitrary: st)
  case Nil
  show ?case by simp
next
  case (Cons x game)
  obtain u r where x: "x = (u, r)" by (cases x)
  let ?st = "check_step st (u, r)"
  let ?fin = "foldl check_step ?st game"
  have fin: "foldl check_step st (x # game) = ?fin" by (simp add: x)
  have m: "max_rank ?st = max (max_rank st) r" by (rule check_step_sel)
  have mu: "max_user ?st = (if max_rank st < r then Some u else max_user st)" by (rule check_step_sel)
  have le: "max_rank ?st \<le> max_rank ?fin" by (rule scan_max(1))
  note IH = Cons.IH[of ?st]
  show ?case unfolding fin
  proof (intro conjI impI)
    assume gt: "max_rank st < max_rank ?fin"
    show "\<exists>pre u' post. x # game = pre @ (u', max_rank ?fin) # post
         \<and> (\<forall>(q, r)\<in>set pre. r < max_rank ?fin) \<and> max_user ?fin = Some u'"
    proof (cases "max_rank ?st < max_rank ?fin")
      case True
      with IH obtain pre u' post where g: "game = pre @ (u', max_rank ?fin) # post"
        and p: "\<forall>(q, r)\<in>set pre. r < max_rank ?fin" and h: "max_user ?fin = Some u'" by blast
      from True m have "r < max_rank ?fin" by simp
      with p have p': "\<forall>(q, r)\<in>set ((u, r) # pre). r < max_rank ?fin" by simp
      from g have g': "x # game = ((u, r) # pre) @ (u', max_rank ?fin) # post" by (simp add: x)
      from g' p' h show ?thesis by blast
    next
      case False
      with le have e: "max_rank ?fin = max_rank ?st" by simp
      with IH have h: "max_user ?fin = max_user ?st" by blast
      from e gt m have r: "max_rank st < r" "max_rank ?fin = r" by (auto simp: max_def split: if_splits)
      with h mu have h': "max_user ?fin = Some u" by simp
      have g': "x # game = [] @ (u, max_rank ?fin) # game" by (simp add: x r)
      have p': "\<forall>(q, r)\<in>set []. r < max_rank ?fin" by simp
      from g' p' h' show ?thesis by blast
    qed
  next
    assume e: "max_rank ?fin = max_rank st"
    with le m have e': "max_rank ?fin = max_rank ?st" "\<not> max_rank st < r" by (auto simp: max_def split: if_splits)
    with IH have "max_user ?fin = max_user ?st" by blast
    with mu e' show "max_user ?fin = max_user st" by simp
  qed
qed

lemma flags_fst_loss [simp]: "fst (flags_of (clear_loss pc0 u) k) = fst (flags_of pc0 k)"
  by (simp add: flags_clear_loss)

lemma flags_snd_win [simp]: "snd (flags_of (clear_win pc0 u) k) = snd (flags_of pc0 k)"
  by (simp add: flags_clear_win)

lemma flags_fst_win [simp]:
  "fst (flags_of (clear_win pc0 u) k) = (if k = u then 0 else fst (flags_of pc0 k))"
  by (simp add: flags_clear_win)

lemma flags_snd_loss [simp]:
  "snd (flags_of (clear_loss pc0 u) k) = (if k = u then 0 else snd (flags_of pc0 k))"
  by (simp add: flags_clear_loss)

lemma step_fst_mono:
  "fst (flags_of (pc st) k) = 0 \<Longrightarrow> fst (flags_of (pc (check_step st item)) k) = 0"
  by (cases item) (auto simp: check_step_pc Let_def split: option.splits)

lemma step_snd_mono:
  "snd (flags_of (pc st) k) = 0 \<Longrightarrow> snd (flags_of (pc (check_step st item)) k) = 0"
  by (cases item) (auto simp: check_step_pc Let_def split: option.splits)

lemma scan_fst_mono:
  "fst (flags_of (pc st) k) = 0 \<Longrightarrow> fst (flags_of (pc (foldl check_step st game)) k) = 0"
  by (induction game arbitrary: st) (auto simp: step_fst_mono)

lemma scan_snd_mono:
  "snd (flags_of (pc st) k) = 0 \<Longrightarrow> snd (flags_of (pc (foldl check_step st game)) k) = 0"
  by (induction game arbitrary: st) (auto simp: step_snd_mono)

lemma step_loss:
  "1 < rank \<Longrightarrow> snd (flags_of (pc (check_step st (user, rank))) user) = 0"
  by (auto simp: check_step_pc Let_def split: option.splits)

lemma step_displace:
  "max_rank st < rank \<Longrightarrow> max_user st = Some h \<Longrightarrow> truthy h \<Longrightarrow>
     fst (flags_of (pc (check_step st (user, rank))) h) = 0"
  by (auto simp: check_step_pc Let_def)

lemma step_better:
  "rank < max_rank st \<Longrightarrow> fst (flags_of (pc (check_step st (user, rank))) user) = 0"
  by (auto simp: check_step_pc Let_def)

lemma scan_untouched:
  assumes "distinct (map fst (pre @ game))"
    and "\<forall>k. k \<notin> fst ` set pre \<longrightarrow> flags_of (pc st) k = flags_of pc0 k"
    and "\<forall>h. max_user st = Some h \<longrightarrow>
            h \<in> fst ` set pre \<and> fst (flags_of (pc st) h) = fst (flags_of pc0 h)"
  shows "(\<forall>k. k \<notin> fst ` set (pre @ game) \<longrightarrow>
            flags_of (pc (foldl check_step st game)) k = flags_of pc0 k)
     \<and> (\<forall>h. max_user (foldl check_step st game) = Some h \<longrightarrow>
            h \<in> fst ` set (pre @ game)
            \<and> fst (flags_of (pc (foldl check_step st game)) h) = fst (flags_of pc0 h))"
  using assms
proof (induction game arbitrary: st pre)
  case Nil
  then show ?case by simp
next
  case (Cons x game)
  obtain u r where x: "x = (u, r)" by (cases x)
  let ?st = "check_step st (u, r)"
  from Cons.prems(1) have u: "u \<notin> fst ` set pre" and d: "distinct (map fst ((pre @ [x]) @ game))"
    by (auto simp: x)
  have h1: "\<forall>k. k \<notin> fst ` set (pre @ [x]) \<longrightarrow> flags_of (pc ?st) k = flags_of pc0 k"
  proof (intro allI impI)
    fix k assume k: "k \<notin> fst ` set (pre @ [x])"
    then have ku: "k \<noteq> u" and kp: "k \<notin> fst ` set pre" by (auto simp: x)
    from Cons.prems(3) kp have kh: "max_user st \<noteq> Some k" by blast
    have "flags_of (pc ?st) k = flags_of (pc st) k"
      using ku kh by (auto simp: check_step_pc Let_def flags_clear_win flags_clear_loss split: option.splits)
    with Cons.prems(2) kp show "flags_of (pc ?st) k = flags_of pc0 k" by simp
  qed
  have h2: "\<forall>h. max_user ?st = Some h \<longrightarrow>
            h \<in> fst ` set (pre @ [x]) \<and> fst (flags_of (pc ?st) h) = fst (flags_of pc0 h)"
  proof (intro allI impI)
    fix h assume h: "max_user ?st = Some h"
    show "h \<in> fst ` set (pre @ [x]) \<and> fst (flags_of (pc ?st) h) = fst (flags_of pc0 h)"
    proof (cases "max_rank st < r")
      case True
      with h have hu: "h = u" by (simp add: check_step_sel)
      from Cons.prems(3) u have "max_user st \<noteq> Some u" by blast
      then have "fst (flags_of (pc ?st) u) = fst (flags_of (pc st) u)"
        using True by (auto simp: check_step_pc Let_def split: option.splits)
      with Cons.prems(2) u hu show ?thesis by (simp add: x)
    next
      case False
      with h have hs: "max_user st = Some h" by (simp add: check_step_sel)
      with Cons.prems(3) have hp: "h \<in> fst ` set pre"
        and hf: "fst (flags_of (pc st) h) = fst (flags_of pc0 h)" by blast+
      from hp u have "h \<noteq> u" by blast
      then have "fst (flags_of (pc ?st) h) = fst (flags_of (pc st) h)"
        using False by (auto simp: check_step_pc Let_def)
      with hp hf show ?thesis by simp
    qed
  qed
  from Cons.IH[OF d h1 h2] show ?case by (simp add: x)
qed

lemma game_holder_unmarked:
  assumes "distinct (map fst game)" and "max_user (check_game pc0 game) = Some h"
  shows "fst (flags_of (pc (check_game pc0 game)) h) = fst (flags_of pc0 h)"
proof -
  let ?init = "\<lparr> pc = pc0, max_rank = 0, max_user = None \<rparr>"
  have "(\<forall>k. k \<notin> fst ` set ([] @ game) \<longrightarrow>
            flags_of (pc (foldl check_step ?init game)) k = flags_of pc0 k)
     \<and> (\<forall>h. max_user (foldl check_step ?init game) = Some h \<longrightarrow>
            h \<in> fst ` set ([] @ game)
            \<and> fst (flags_of (pc (foldl check_step ?init game)) h) = fst (flags_of pc0 h))"
    by (rule scan_untouched) (use assms(1) in simp_all)
  with assms(2) show ?thesis unfolding check_game_def by blast
qed

section \<open>The validator never raises\<close>

lemma one_cleared_reached: "one_cleared (pc (check_game (check_pc gs) items))"
  by (rule one_cleared_game) (rule one_cleared_check_pc)

lemma check_games_result:
  "check_games games =
     (if 0 < (\<Sum>(player, w, l)\<leftarrow>check_pc games. w + l)
      then Inr (Some (map fst (filter (\<lambda>(u, w, l). w = 0 \<and> l \<noteq> 0) (check_pc games))),
                Some (map fst (filter (\<lambda>(u, w, l). w \<noteq> 0) (check_pc games))))
      else Inr (None, None))"
proof -
  from one_cleared_check_pc[of games]
  have "\<forall>(u, w, l)\<in>set (check_pc games). w = 0 \<or> l = 0" by (simp add: one_cleared_def)
  from classify_one_cleared[OF this, of "[]" "[]"] show ?thesis
    by (simp add: check_games_def Let_def)
qed

lemma winners_losers_disjoint:
  "set (map fst (filter (\<lambda>(u, w, l). w = 0 \<and> l \<noteq> 0) (check_pc games)))
     \<inter> set (map fst (filter (\<lambda>(u, w, l). w \<noteq> 0) (check_pc games))) = {}"
proof (rule filter_keys_disjoint)
  from one_cleared_check_pc[of games] show "distinct (map fst (check_pc games))"
    by (simp add: one_cleared_def)
  fix x :: "key \<times> int \<times> int"
  show "\<not> ((case x of (u, w, l) \<Rightarrow> w = 0 \<and> l \<noteq> 0) \<and> (case x of (u, w, l) \<Rightarrow> w \<noteq> 0))"
    by (cases x) simp
qed

lemma created_entries:
  "map_of pc0 u = None \<Longrightarrow> map_of (clear_win pc0 u) u = Some (0, 1)"
  "map_of pc0 u = None \<Longrightarrow> map_of (clear_loss pc0 u) u = Some (1, 0)"
  by (simp_all add: clear_win_def clear_loss_def flags_of_def dict_set_map_of)

text \<open>
  Claim C10: \<open>check_games\<close> returns on every input, so the \<open>raise\<close> of line 69 is never
  reached; when it returns two lists, the first holds the players whose win flag is
  cleared and whose loss flag is set, the second those whose win flag is set and whose
  loss flag is cleared, and no player is in both.  In every state that the two loops
  reach (after the games \<open>gs\<close> and the items \<open>items\<close> of a further game) the keys of \<open>pc\<close>
  are distinct and every entry has a cleared flag; an entry that \<open>setdefault\<close> creates is
  \<open>[0, 1]\<close> or \<open>[1, 0]\<close> once the statement that creates it has run.
\<close>

theorem check_games_never_raises:
  "(\<exists>r. check_games games = Inr r)
   \<and> (\<forall>winners losers. check_games games = Inr (Some winners, Some losers) \<longrightarrow>
         winners = map fst (filter (\<lambda>(u, w, l). w = 0 \<and> l \<noteq> 0) (check_pc games))
         \<and> losers = map fst (filter (\<lambda>(u, w, l). w \<noteq> 0 \<and> l = 0) (check_pc games))
         \<and> set winners \<inter> set losers = {})
   \<and> one_cleared (pc (check_game (check_pc gs) items))
   \<and> (map_of pc0 u = None \<longrightarrow>
         map_of (clear_win pc0 u) u = Some (0, 1) \<and> map_of (clear_loss pc0 u) u = Some (1, 0))"
proof (intro conjI allI impI)
  show "\<exists>r. check_games games = Inr r"
    by (simp add: check_games_result)
next
  fix winners losers
  assume r: "check_games games = Inr (Some winners, Some losers)"
  from one_cleared_check_pc[of games]
  have oc: "\<forall>(u, w, l)\<in>set (check_pc games). w = 0 \<or> l = 0" by (simp add: one_cleared_def)
  have f: "filter (\<lambda>(u, w, l). w \<noteq> 0) (check_pc games)
         = filter (\<lambda>(u, w, l). w \<noteq> 0 \<and> l = 0) (check_pc games)"
    by (rule filter_cong[OF refl]) (use oc in auto)
  from r have w: "winners = map fst (filter (\<lambda>(u, w, l). w = 0 \<and> l \<noteq> 0) (check_pc games))"
    and l: "losers = map fst (filter (\<lambda>(u, w, l). w \<noteq> 0) (check_pc games))"
    by (simp_all add: check_games_result split: if_splits)
  show "winners = map fst (filter (\<lambda>(u, w, l). w = 0 \<and> l \<noteq> 0) (check_pc games))" by (rule w)
  show "losers = map fst (filter (\<lambda>(u, w, l). w \<noteq> 0 \<and> l = 0) (check_pc games))"
    using l f by simp
  show "set winners \<inter> set losers = {}"
    unfolding w l by (rule winners_losers_disjoint)
next
  show "one_cleared (pc (check_game (check_pc gs) items))" by (rule one_cleared_reached)
next
  assume "map_of pc0 u = None"
  then show "map_of (clear_win pc0 u) u = Some (0, 1)" by (rule created_entries)
next
  assume "map_of pc0 u = None"
  then show "map_of (clear_loss pc0 u) u = Some (1, 0)" by (rule created_entries)
qed

lemmas check_eval = check_games_def check_pc_def check_game_def check_step_def clear_win_def
  clear_loss_def flags_of_def Let_def

lemma G1_pc: "check_pc [[(Str ''a'', 1), (Str ''b'', 2)]] = [(Str ''b'', 1, 0), (Str ''a'', 0, 1)]"
  by (simp add: check_eval)

lemma G1_result:
  "check_games [[(Str ''a'', 1), (Str ''b'', 2)]] = Inr (Some [Str ''a''], Some [Str ''b''])"
  by (simp add: check_eval)

theorem check_games_never_raises_witness:
  "check_games [[(Str ''a'', 1), (Str ''b'', 2)]] = Inr (Some [Str ''a''], Some [Str ''b''])
   \<and> [Str ''a''] = map fst (filter (\<lambda>(u, w, l). w = 0 \<and> l \<noteq> 0) (check_pc [[(Str ''a'', 1), (Str ''b'', 2)]]))
   \<and> [Str ''b''] = map fst (filter (\<lambda>(u, w, l). w \<noteq> 0 \<and> l = 0) (check_pc [[(Str ''a'', 1), (Str ''b'', 2)]]))
   \<and> set [Str ''a''] \<inter> set [Str ''b''] = {}
   \<and> pc (check_game (check_pc [[(Str ''a'', 1), (Str ''b'', 2)]]) [(Str ''c'', 1)])
       = [(Str ''b'', 1, 0), (Str ''a'', 0, 1)]
   \<and> pc (check_game (check_pc []) [(Str ''c'', 1), (Str ''d'', 2)])
       = [(Str ''d'', 1, 0), (Str ''c'', 0, 1)]
   \<and> one_cleared (pc (check_game (check_pc []) [(Str ''c'', 1), (Str ''d'', 2)]))
   \<and> map_of [] (Str ''a'') = (None :: (int \<times> int) option)
   \<and> map_of (clear_win [] (Str ''a'')) (Str ''a'') = Some (0, 1)
   \<and> map_of (clear_loss [] (Str ''a'')) (Str ''a'') = Some (1, 0)"
proof -
  note inst = check_games_never_raises[of "[[(Str ''a'', 1), (Str ''b'', 2)]]" "[]"
      "[(Str ''c'', 1), (Str ''d'', 2)]" "[]" "Str ''a''"]
  note c2 = inst[THEN conjunct2, THEN conjunct1, THEN spec, THEN spec, THEN mp, OF G1_result]
  note c3 = inst[THEN conjunct2, THEN conjunct2, THEN conjunct1]
  have h: "map_of [] (Str ''a'') = (None :: (int \<times> int) option)" by simp
  note c4 = inst[THEN conjunct2, THEN conjunct2, THEN conjunct2, THEN mp, OF h]
  have e1: "pc (check_game (check_pc [[(Str ''a'', 1), (Str ''b'', 2)]]) [(Str ''c'', 1)])
       = [(Str ''b'', 1, 0), (Str ''a'', 0, 1)]"
    by (simp add: check_eval)
  have e2: "pc (check_game (check_pc []) [(Str ''c'', 1), (Str ''d'', 2)])
       = [(Str ''d'', 1, 0), (Str ''c'', 0, 1)]"
    by (simp add: check_eval)
  from G1_result c2 e1 e2 c3 h c4 show ?thesis by (intro conjI) blast+
qed

section \<open>The validator: what a ranking marks\<close>

lemma scan_win_later:
  assumes "max_user st = Some u" and "truthy u" and "max_rank st < r'" and "(q, r') \<in> set game"
  shows "fst (flags_of (pc (foldl check_step st game)) u) = 0"
  using assms
proof (induction game arbitrary: st)
  case Nil
  then show ?case by simp
next
  case (Cons x game)
  obtain v rv where x: "x = (v, rv)" by (cases x)
  let ?st = "check_step st (v, rv)"
  show ?case
  proof (cases "max_rank st < rv")
    case True
    from step_displace[OF True Cons.prems(1,2)]
    have "fst (flags_of (pc ?st) u) = 0" .
    then have "fst (flags_of (pc (foldl check_step ?st game)) u) = 0" by (rule scan_fst_mono)
    then show ?thesis by (simp add: x)
  next
    case False
    then have mr: "max_rank ?st = max_rank st" and mu: "max_user ?st = Some u"
      using Cons.prems(1) by (simp_all add: check_step_sel)
    from False Cons.prems(3,4) have "(q, r') \<in> set game" by (auto simp: x)
    with Cons.IH[of ?st] mr mu Cons.prems(2,3)
    have "fst (flags_of (pc (foldl check_step ?st game)) u) = 0" by simp
    then show ?thesis by (simp add: x)
  qed
qed

lemma game_win:
  assumes "\<forall>(p, r)\<in>set game. truthy p \<and> 1 \<le> r" and "distinct (map snd game)"
    and "(u, r) \<in> set game" and "(q, r') \<in> set game" and "r < r'"
  shows "fst (flags_of (pc (check_game pc0 game)) u) = 0"
proof -
  let ?init = "\<lparr> pc = pc0, max_rank = 0, max_user = None \<rparr>"
  from assms(3) obtain pre post where g: "game = pre @ (u, r) # post"
    by (meson split_list)
  let ?st1 = "foldl check_step ?init pre"
  let ?st2 = "check_step ?st1 (u, r)"
  have fin: "check_game pc0 game = foldl check_step ?st2 post"
    by (simp add: check_game_def g)
  from assms(1,3) have tu: "truthy u" and r1: "1 \<le> r" by auto
  from assms(2) have rpre: "r \<notin> snd ` set pre" by (auto simp: g)
  from scan_max(3)[of ?init pre] have "max_rank ?st1 = 0 \<or> max_rank ?st1 \<in> snd ` set pre"
    by simp
  with r1 rpre have ne: "r \<noteq> max_rank ?st1" by auto
  show ?thesis
  proof (cases "r < max_rank ?st1")
    case True
    then have "fst (flags_of (pc ?st2) u) = 0" by (rule step_better)
    then show ?thesis unfolding fin by (rule scan_fst_mono)
  next
    case False
    with ne have gt: "max_rank ?st1 < r" by simp
    then have mu: "max_user ?st2 = Some u" and mr: "max_rank ?st2 = r"
      by (simp_all add: check_step_sel)
    have "(q, r') \<notin> set pre"
    proof
      assume "(q, r') \<in> set pre"
      with scan_max(2)[of pre ?init] have "r' \<le> max_rank ?st1" by blast
      with gt assms(5) show False by simp
    qed
    with assms(4,5) have "(q, r') \<in> set post" by (auto simp: g)
    from scan_win_later[OF mu tu _ this] mr assms(5) show ?thesis unfolding fin by simp
  qed
qed

lemma game_loss:
  assumes "(u, r) \<in> set game" and "1 < r"
  shows "snd (flags_of (pc (check_game pc0 game)) u) = 0"
proof -
  let ?init = "\<lparr> pc = pc0, max_rank = 0, max_user = None \<rparr>"
  from assms(1) obtain pre post where g: "game = pre @ (u, r) # post"
    by (meson split_list)
  have fin: "check_game pc0 game = foldl check_step (check_step (foldl check_step ?init pre) (u, r)) post"
    by (simp add: check_game_def g)
  show ?thesis unfolding fin by (rule scan_snd_mono) (rule step_loss[OF assms(2)])
qed

lemma game_fst_mono:
  "fst (flags_of pc0 k) = 0 \<Longrightarrow> fst (flags_of (pc (check_game pc0 game)) k) = 0"
  unfolding check_game_def by (rule scan_fst_mono) simp

lemma game_snd_mono:
  "snd (flags_of pc0 k) = 0 \<Longrightarrow> snd (flags_of (pc (check_game pc0 game)) k) = 0"
  unfolding check_game_def by (rule scan_snd_mono) simp

lemma games_fst_mono:
  "fst (flags_of pc0 k) = 0 \<Longrightarrow>
     fst (flags_of (foldl (\<lambda>pc0 game. pc (check_game pc0 game)) pc0 games) k) = 0"
  by (induction games arbitrary: pc0) (auto simp: game_fst_mono)

lemma games_snd_mono:
  "snd (flags_of pc0 k) = 0 \<Longrightarrow>
     snd (flags_of (foldl (\<lambda>pc0 game. pc (check_game pc0 game)) pc0 games) k) = 0"
  by (induction games arbitrary: pc0) (auto simp: game_snd_mono)

lemma games_win:
  assumes "g \<in> set games" and "\<forall>(p, r)\<in>set g. truthy p \<and> 1 \<le> r" and "distinct (map snd g)"
    and "(u, r) \<in> set g" and "(q, r') \<in> set g" and "r < r'"
  shows "fst (flags_of (check_pc games) u) = 0"
proof -
  from assms(1) obtain G1 G2 where s: "games = G1 @ g # G2" by (meson split_list)
  have "fst (flags_of (pc (check_game (check_pc G1) g)) u) = 0"
    by (rule game_win[OF assms(2-6)])
  then show ?thesis unfolding check_pc_def s by (simp add: games_fst_mono)
qed

lemma games_loss:
  assumes "g \<in> set games" and "(u, r) \<in> set g" and "1 < r"
  shows "snd (flags_of (check_pc games) u) = 0"
proof -
  from assms(1) obtain G1 G2 where s: "games = G1 @ g # G2" by (meson split_list)
  have "snd (flags_of (pc (check_game (check_pc G1) g)) u) = 0"
    by (rule game_loss[OF assms(2,3)])
  then show ?thesis unfolding check_pc_def s by (simp add: games_snd_mono)
qed

lemma flags_of_entry:
  "distinct (map fst pc0) \<Longrightarrow> (u, f) \<in> set pc0 \<Longrightarrow> flags_of pc0 u = f"
  by (simp add: flags_of_def)

lemma sum_flags_zero:
  "\<forall>(u, w, l)\<in>set pc0. w = 0 \<and> l = 0 \<Longrightarrow> (\<Sum>(player, w, l)\<leftarrow>pc0. w + l) = (0 :: int)"
  by (induction pc0) auto

lemma clear_keys:
  "fst ` set (clear_win pc0 u) = insert u (fst ` set pc0)"
  "fst ` set (clear_loss pc0 u) = insert u (fst ` set pc0)"
proof -
  have "set (map fst (dict_set pc0 u v)) = insert u (fst ` set pc0)" for v :: "int \<times> int"
    unfolding dict_set_keys by auto
  then show "fst ` set (clear_win pc0 u) = insert u (fst ` set pc0)"
    "fst ` set (clear_loss pc0 u) = insert u (fst ` set pc0)"
    by (simp_all add: clear_win_def clear_loss_def)
qed

lemma step_keys:
  assumes "fst ` set (pc st) \<subseteq> A" and "set_option (max_user st) \<subseteq> A" and "u \<in> A"
  shows "fst ` set (pc (check_step st (u, r))) \<subseteq> A"
    and "set_option (max_user (check_step st (u, r))) \<subseteq> A"
  using assms by (auto simp: check_step_pc check_step_sel Let_def clear_keys split: option.splits if_splits)

lemma scan_keys:
  assumes "fst ` set (pc st) \<subseteq> A" and "set_option (max_user st) \<subseteq> A" and "fst ` set game \<subseteq> A"
  shows "fst ` set (pc (foldl check_step st game)) \<subseteq> A"
  using assms
proof (induction game arbitrary: st)
  case Nil
  then show ?case by simp
next
  case (Cons x game)
  obtain u r where x: "x = (u, r)" by (cases x)
  from Cons.prems(3) have u: "u \<in> A" and g: "fst ` set game \<subseteq> A" by (auto simp: x)
  from Cons.IH[OF step_keys[OF Cons.prems(1,2) u] g, of r] show ?case by (simp add: x)
qed

lemma game_keys:
  "fst ` set pc0 \<subseteq> A \<Longrightarrow> fst ` set game \<subseteq> A \<Longrightarrow> fst ` set (pc (check_game pc0 game)) \<subseteq> A"
  unfolding check_game_def by (rule scan_keys) simp_all

lemma games_keys:
  "fst ` set pc0 \<subseteq> A \<Longrightarrow> \<forall>g\<in>set games. fst ` set g \<subseteq> A \<Longrightarrow>
     fst ` set (foldl (\<lambda>pc0 game. pc (check_game pc0 game)) pc0 games) \<subseteq> A"
  by (induction games arbitrary: pc0) (simp_all add: game_keys)

lemma check_pc_keys: "fst ` set (check_pc games) \<subseteq> set (players_of games)"
  unfolding check_pc_def by (rule games_keys) (auto simp: players_of_def)

lemma step_flags:
  "fst (flags_of (pc (check_step st (user, rank))) k) =
     (if (max_rank st < rank \<and> max_user st = Some k \<and> truthy k) \<or> (rank < max_rank st \<and> k = user)
      then 0 else fst (flags_of (pc st) k))"
  "snd (flags_of (pc (check_step st (user, rank))) k) =
     (if 1 < rank \<and> k = user then 0 else snd (flags_of (pc st) k))"
  by (auto simp: check_step_pc Let_def split: option.splits)

lemma game_max_rank: "max_rank (check_game pc0 game) = Max (insert 0 (snd ` set game))"
proof -
  let ?init = "\<lparr> pc = pc0, max_rank = 0, max_user = None \<rparr>"
  let ?m = "max_rank (foldl check_step ?init game)"
  from scan_max(1)[of ?init game] have a: "0 \<le> ?m" by simp
  from scan_max(2)[of game ?init] have b: "\<forall>(q, r)\<in>set game. r \<le> ?m" .
  from scan_max(3)[of ?init game] have c: "?m \<in> insert 0 (snd ` set game)" by auto
  have "Max (insert 0 (snd ` set game)) = ?m"
  proof (rule Max_eqI)
    show "finite (insert 0 (snd ` set game))" by simp
    show "?m \<in> insert 0 (snd ` set game)" by (rule c)
    fix y assume "y \<in> insert 0 (snd ` set game)"
    with a b show "y \<le> ?m" by auto
  qed
  then show ?thesis by (simp add: check_game_def)
qed

lemma game_holder:
  assumes "distinct (map fst game)" and "0 < max_rank (check_game pc0 game)"
  shows "\<exists>pre u post. game = pre @ (u, max_rank (check_game pc0 game)) # post
       \<and> (\<forall>(q, r)\<in>set pre. r < max_rank (check_game pc0 game))
       \<and> max_user (check_game pc0 game) = Some u
       \<and> fst (flags_of (pc (check_game pc0 game)) u) = fst (flags_of pc0 u)"
proof -
  let ?init = "\<lparr> pc = pc0, max_rank = 0, max_user = None \<rparr>"
  from assms(2) have "max_rank ?init < max_rank (foldl check_step ?init game)"
    by (simp add: check_game_def)
  with scan_holder[of ?init game] obtain pre u post where
    g: "game = pre @ (u, max_rank (foldl check_step ?init game)) # post"
    and p: "\<forall>(q, r)\<in>set pre. r < max_rank (foldl check_step ?init game)"
    and h: "max_user (foldl check_step ?init game) = Some u" by blast
  from h have h': "max_user (check_game pc0 game) = Some u" by (simp add: check_game_def)
  note f = game_holder_unmarked[OF assms(1) h']
  from g p h' f show ?thesis unfolding check_game_def by blast
qed

text \<open>
  Claim C8, as the specification states it, tracks the best (lowest) position and gives
  a displaced holder a loss mark.  The code tracks the worst (highest) position: on
  \<open>{a: 1, b: 2}\<close> its holder at the end is \<open>b\<close> and \<open>a\<close>, displaced as holder, has its
  missing-win flag cleared, where the tracker of the specification ends with \<open>a\<close> and
  writes nothing for \<open>a\<close>; on \<open>{a: 2, b: 1}\<close> the code keeps \<open>a\<close> as holder and clears the
  missing-win flag of \<open>b\<close>, where the specification makes \<open>b\<close> the holder.
\<close>

theorem check_game_tracks_best_counterexample:
  "check_game [] [(Str ''a'', 1), (Str ''b'', 2)]
     = \<lparr> pc = [(Str ''b'', 1, 0), (Str ''a'', 0, 1)], max_rank = 2, max_user = Some (Str ''b'') \<rparr>
   \<and> foldl spec_check_step ([], None) [(Str ''a'', 1), (Str ''b'', 2)]
     = ([(Str ''b'', 1, 0)], Some (1, Str ''a''))
   \<and> check_game [] [(Str ''a'', 2), (Str ''b'', 1)]
     = \<lparr> pc = [(Str ''a'', 1, 0), (Str ''b'', 0, 1)], max_rank = 2, max_user = Some (Str ''a'') \<rparr>
   \<and> foldl spec_check_step ([], None) [(Str ''a'', 2), (Str ''b'', 1)]
     = ([(Str ''a'', 1, 0)], Some (1, Str ''b''))"
  by (simp add: check_game_def check_step_def spec_check_step_def clear_win_def clear_loss_def
      flags_of_def Let_def)

text \<open>
  Claim C8, amended: the detection tracks the worst (highest) position seen so far in
  the ranking and its holder.  An item with a strictly worse position becomes the holder,
  and the previous holder (when its key is truthy) gets its missing-win flag cleared; an
  item with a position strictly better than the tracked one gets its own missing-win
  flag cleared and leaves the tracker as it is; an item with a position above \<open>1\<close> gets
  its missing-loss flag cleared; no other flag changes.  At the end of a ranking the
  tracked position is the largest position of the ranking, its holder is the first
  participant at that position, and the missing-win flag of that holder is the one it
  had before the ranking: the ranking gives its final holder no win mark.
\<close>

theorem check_game_tracks_worst:
  assumes "distinct (map fst game)"
  shows "max_rank (check_step st (user, rank)) = max (max_rank st) rank
     \<and> max_user (check_step st (user, rank)) = (if max_rank st < rank then Some user else max_user st)
     \<and> fst (flags_of (pc (check_step st (user, rank))) k) =
         (if (max_rank st < rank \<and> max_user st = Some k \<and> truthy k)
               \<or> (rank < max_rank st \<and> k = user)
          then 0 else fst (flags_of (pc st) k))
     \<and> snd (flags_of (pc (check_step st (user, rank))) k) =
         (if 1 < rank \<and> k = user then 0 else snd (flags_of (pc st) k))
     \<and> max_rank (check_game pc0 game) = Max (insert 0 (snd ` set game))
     \<and> (0 < max_rank (check_game pc0 game) \<longrightarrow>
          (\<exists>pre u post. game = pre @ (u, max_rank (check_game pc0 game)) # post
             \<and> (\<forall>(q, r)\<in>set pre. r < max_rank (check_game pc0 game))
             \<and> max_user (check_game pc0 game) = Some u
             \<and> fst (flags_of (pc (check_game pc0 game)) u) = fst (flags_of pc0 u)))"
proof (intro conjI impI)
  show "max_rank (check_step st (user, rank)) = max (max_rank st) rank"
    by (rule check_step_sel)
  show "max_user (check_step st (user, rank)) = (if max_rank st < rank then Some user else max_user st)"
    by (rule check_step_sel)
  show "fst (flags_of (pc (check_step st (user, rank))) k) =
         (if (max_rank st < rank \<and> max_user st = Some k \<and> truthy k)
               \<or> (rank < max_rank st \<and> k = user)
          then 0 else fst (flags_of (pc st) k))"
    by (rule step_flags)
  show "snd (flags_of (pc (check_step st (user, rank))) k) =
         (if 1 < rank \<and> k = user then 0 else snd (flags_of (pc st) k))"
    by (rule step_flags)
  show "max_rank (check_game pc0 game) = Max (insert 0 (snd ` set game))"
    by (rule game_max_rank)
next
  assume "0 < max_rank (check_game pc0 game)"
  with assms show "\<exists>pre u post. game = pre @ (u, max_rank (check_game pc0 game)) # post
             \<and> (\<forall>(q, r)\<in>set pre. r < max_rank (check_game pc0 game))
             \<and> max_user (check_game pc0 game) = Some u
             \<and> fst (flags_of (pc (check_game pc0 game)) u) = fst (flags_of pc0 u)"
    by (rule game_holder)
qed

theorem check_game_tracks_worst_witness:
  "distinct (map fst [(Str ''a'', 1 :: int), (Str ''c'', 3), (Str ''b'', 2)])
   \<and> max_rank (check_step \<lparr> pc = [], max_rank = 1, max_user = Some (Str ''a'') \<rparr> (Str ''c'', 3)) = 3
   \<and> max_user (check_step \<lparr> pc = [], max_rank = 1, max_user = Some (Str ''a'') \<rparr> (Str ''c'', 3))
        = Some (Str ''c'')
   \<and> fst (flags_of (pc (check_step \<lparr> pc = [], max_rank = 1, max_user = Some (Str ''a'') \<rparr>
        (Str ''c'', 3))) (Str ''a'')) = 0
   \<and> snd (flags_of (pc (check_step \<lparr> pc = [], max_rank = 1, max_user = Some (Str ''a'') \<rparr>
        (Str ''c'', 3))) (Str ''a'')) = 1
   \<and> max_rank (check_game [] [(Str ''a'', 1), (Str ''c'', 3), (Str ''b'', 2)]) = 3
   \<and> Max (insert 0 (snd ` set [(Str ''a'', 1 :: int), (Str ''c'', 3), (Str ''b'', 2)])) = 3
   \<and> (\<exists>pre u post. [(Str ''a'', 1 :: int), (Str ''c'', 3), (Str ''b'', 2)] = pre @ (u, 3) # post
         \<and> (\<forall>(q, r)\<in>set pre. r < 3)
         \<and> max_user (check_game [] [(Str ''a'', 1), (Str ''c'', 3), (Str ''b'', 2)]) = Some u
         \<and> fst (flags_of (pc (check_game [] [(Str ''a'', 1), (Str ''c'', 3), (Str ''b'', 2)])) u) = 1)"
proof -
  let ?G = "[(Str ''a'', 1 :: int), (Str ''c'', 3), (Str ''b'', 2)]"
  let ?S = "\<lparr> pc = [], max_rank = 1, max_user = Some (Str ''a'') \<rparr>"
  have h: "distinct (map fst ?G)" by simp
  note inst = check_game_tracks_worst[OF h, of ?S "Str ''c''" 3 "Str ''a''" "[]"]
  have e: "max_rank (check_game [] ?G) = 3"
    by (simp add: check_eval)
  have f: "fst (flags_of [] u) = 1" for u :: key by (simp add: flags_of_def)
  from inst[THEN conjunct1] have c1: "max_rank (check_step ?S (Str ''c'', 3)) = 3" by simp
  from inst[THEN conjunct2, THEN conjunct1]
  have c2: "max_user (check_step ?S (Str ''c'', 3)) = Some (Str ''c'')" by simp
  from inst[THEN conjunct2, THEN conjunct2, THEN conjunct1]
  have c3: "fst (flags_of (pc (check_step ?S (Str ''c'', 3))) (Str ''a'')) = 0" by simp
  from inst[THEN conjunct2, THEN conjunct2, THEN conjunct2, THEN conjunct1]
  have c4: "snd (flags_of (pc (check_step ?S (Str ''c'', 3))) (Str ''a'')) = 1"
    by (simp add: flags_of_def)
  from inst[THEN conjunct2, THEN conjunct2, THEN conjunct2, THEN conjunct2, THEN conjunct1] e
  have c5: "Max (insert 0 (snd ` set ?G)) = 3" by (simp only:)
  have pos: "0 < max_rank (check_game [] ?G)" unfolding e by simp
  note c6 = inst[THEN conjunct2, THEN conjunct2, THEN conjunct2, THEN conjunct2, THEN conjunct2,
      THEN mp, OF pos, unfolded e f]
  from h c1 c2 c3 c4 e c5 c6 show ?thesis by (intro conjI)
qed

section \<open>The validator on eligible games\<close>

lemma eligible_entries:
  assumes "\<forall>g\<in>set games. (\<forall>(p, r)\<in>set g. truthy p \<and> 1 \<le> r) \<and> distinct (map snd g)"
    and "\<forall>u\<in>set (players_of games). win_class games u \<and> loss_class games u"
    and "(u, w, l) \<in> set (check_pc games)"
  shows "w = 0 \<and> l = 0"
proof -
  from assms(3) have "u \<in> fst ` set (check_pc games)" by force
  with check_pc_keys have "u \<in> set (players_of games)" by blast
  with assms(2) have wc: "win_class games u" and lc: "loss_class games u" by blast+
  from one_cleared_check_pc[of games] have "distinct (map fst (check_pc games))"
    by (simp add: one_cleared_def)
  from flags_of_entry[OF this assms(3)] have fl: "flags_of (check_pc games) u = (w, l)" .
  from wc obtain g r q r' where g: "g \<in> set games" and u: "(u, r) \<in> set g"
    and q: "(q, r') \<in> set g" and lt: "r < r'"
    unfolding win_class_def by blast
  from assms(1) g have g1: "\<forall>(p, r)\<in>set g. truthy p \<and> 1 \<le> r" and g2: "distinct (map snd g)"
    by blast+
  from games_win[OF g g1 g2 u q lt] fl have w: "w = 0" by simp
  from lc obtain g r q r' where g: "g \<in> set games" and u: "(u, r) \<in> set g"
    and q: "(q, r') \<in> set g" and lt: "r' < r"
    unfolding loss_class_def by blast
  from assms(1) g q have "1 \<le> r'" by blast
  with lt have "1 < r" by simp
  from games_loss[OF g u this] fl have l: "l = 0" by simp
  from w l show ?thesis ..
qed

text \<open>
  Claim C7, as the specification states it, has the validator return two empty lists.
  On \<open>{a: 1, b: 2}, {a: 2, b: 1}\<close> both players have a win-class and a loss-class event,
  and the code returns \<open>None, None\<close> (line 76), which is no pair of lists.
\<close>

theorem check_games_two_empty_lists_counterexample:
  "players_of Gboth = [Str ''a'', Str ''b'']
   \<and> win_class Gboth (Str ''a'') \<and> loss_class Gboth (Str ''a'')
   \<and> win_class Gboth (Str ''b'') \<and> loss_class Gboth (Str ''b'')
   \<and> check_games Gboth = Inr (None, None)
   \<and> check_games Gboth \<noteq> Inr (Some [], Some [])"
  by (simp add: Gboth_def players_of_def win_class_def loss_class_def check_eval)

text \<open>
  Claim C7, amended: for games whose keys are truthy, whose positions are at least \<open>1\<close>
  and in which no two participants share a position, if every player of the games has a
  win-class and a loss-class event then every entry of \<open>pc\<close> has both flags cleared and
  \<open>check_games\<close> returns \<open>None, None\<close>.
\<close>

theorem check_games_all_eligible:
  assumes "\<forall>g\<in>set games. (\<forall>(p, r)\<in>set g. truthy p \<and> 1 \<le> r) \<and> distinct (map snd g)"
    and "\<forall>u\<in>set (players_of games). win_class games u \<and> loss_class games u"
  shows "check_games games = Inr (None, None)
     \<and> (\<forall>(u, w, l)\<in>set (check_pc games). w = 0 \<and> l = 0)"
proof -
  have z: "\<forall>(u, w, l)\<in>set (check_pc games). w = 0 \<and> l = 0"
    using eligible_entries[OF assms] by blast
  from sum_flags_zero[OF z] have "check_games games = Inr (None, None)"
    by (simp add: check_games_result)
  then show ?thesis using z by (rule conjI)
qed

theorem check_games_all_eligible_witness:
  "check_games Gboth = Inr (None, None)
   \<and> check_pc Gboth = [(Str ''b'', 0, 0), (Str ''a'', 0, 0)]"
proof -
  have h1: "\<forall>g\<in>set Gboth. (\<forall>(p, r)\<in>set g. truthy p \<and> 1 \<le> r) \<and> distinct (map snd g)"
    by (simp add: Gboth_def)
  have h2: "\<forall>u\<in>set (players_of Gboth). win_class Gboth u \<and> loss_class Gboth u"
    by (simp add: Gboth_def players_of_def win_class_def loss_class_def)
  note inst = check_games_all_eligible[OF h1 h2]
  have e: "check_pc Gboth = [(Str ''b'', 0, 0), (Str ''a'', 0, 0)]"
    by (simp add: Gboth_def check_eval)
  from inst[THEN conjunct1] e show ?thesis ..
qed

text \<open>With tied positions the detection can miss a win-class event: \<open>B\<close>, tied with the
  tracked holder \<open>A\<close> in the first game, gets no win mark there although it finished
  before \<open>C\<close>.\<close>

lemma check_games_tie_example:
  "check_games [[(Str ''A'', 1), (Str ''B'', 1), (Str ''C'', 2)],
                [(Str ''C'', 1), (Str ''B'', 2)],
                [(Str ''C'', 1), (Str ''A'', 2)]] = Inr (Some [], Some [Str ''B''])
   \<and> win_class [[(Str ''A'', 1), (Str ''B'', 1), (Str ''C'', 2)],
                [(Str ''C'', 1), (Str ''B'', 2)],
                [(Str ''C'', 1), (Str ''A'', 2)]] (Str ''B'')"
  by (simp add: check_eval win_class_def)

section \<open>The fake games\<close>

lemma fake_games_eq:
  "Num 0 \<notin> set ps \<Longrightarrow>
     fake_games ps = concat (map (\<lambda>p. [[(Num 0, 1), (p, 2)], [(Num 0, 2), (p, 1)]]) ps)"
  unfolding fake_games_def
  by (rule arg_cong[where f = concat], rule map_cong[OF refl]) auto

lemma players_of_set: "set (players_of games) = (\<Union>g\<in>set games. fst ` set g)"
  by (auto simp: players_of_def)

lemma players_of_distinct: "distinct (players_of games)"
  by (simp add: players_of_def)

lemma anchor_absent:
  "\<forall>g\<in>set games. Num 0 \<notin> fst ` set g \<Longrightarrow> Num 0 \<notin> set (players_of games)"
  by (simp add: players_of_set)

lemma beats_absent:
  "a \<notin> fst ` set g \<Longrightarrow> \<not> beats g a b" "b \<notin> fst ` set g \<Longrightarrow> \<not> beats g a b"
proof -
  show "\<not> beats g a b" if "a \<notin> fst ` set g"
  proof -
    from that have "map_of g a = None" by (simp add: map_of_eq_None_iff)
    then show ?thesis by (simp add: beats_def)
  qed
  show "\<not> beats g a b" if "b \<notin> fst ` set g"
  proof -
    from that have "map_of g b = None" by (simp add: map_of_eq_None_iff)
    then show ?thesis by (simp add: beats_def split: option.splits)
  qed
qed

lemma filter_beats_real:
  assumes "\<forall>g\<in>set games. Num 0 \<notin> fst ` set g"
  shows "filter (\<lambda>g. beats g (Num 0) p) games = []" "filter (\<lambda>g. beats g p (Num 0)) games = []"
proof -
  have "\<not> beats g (Num 0) p" "\<not> beats g p (Num 0)" if "g \<in> set games" for g
    using assms that beats_absent[of "Num 0" g] by blast+
  then show "filter (\<lambda>g. beats g (Num 0) p) games = []" "filter (\<lambda>g. beats g p (Num 0)) games = []"
    by (simp_all add: filter_empty_conv)
qed

lemma fake_pair_facts:
  assumes "Num 0 \<noteq> q" and "p \<noteq> Num 0"
  shows "beats [(Num 0, 1), (q, 2)] (Num 0) p \<longleftrightarrow> q = p"
    and "\<not> beats [(Num 0, 2), (q, 1)] (Num 0) p"
    and "\<not> beats [(Num 0, 1), (q, 2)] p (Num 0)"
    and "beats [(Num 0, 2), (q, 1)] p (Num 0) \<longleftrightarrow> q = p"
  using assms by (auto simp: beats_def)

lemma count_fake:
  assumes "Num 0 \<notin> set ps" and "p \<noteq> Num 0"
  shows "length (filter (\<lambda>g. beats g (Num 0) p)
           (concat (map (\<lambda>p. [[(Num 0, 1), (p, 2)], [(Num 0, 2), (p, 1)]]) ps))) = count_list ps p"
    and "length (filter (\<lambda>g. beats g p (Num 0))
           (concat (map (\<lambda>p. [[(Num 0, 1), (p, 2)], [(Num 0, 2), (p, 1)]]) ps))) = count_list ps p"
    and "count_list (concat (map (\<lambda>p. [[(Num 0, 1 :: int), (p, 2)], [(Num 0, 2), (p, 1)]]) ps))
           [(Num 0, 1), (p, 2)] = count_list ps p"
    and "count_list (concat (map (\<lambda>p. [[(Num 0, 1 :: int), (p, 2)], [(Num 0, 2), (p, 1)]]) ps))
           [(Num 0, 2), (p, 1)] = count_list ps p"
    and "length (filter (\<lambda>g. Num 0 \<in> fst ` set g \<and> p \<in> fst ` set g)
           (concat (map (\<lambda>p. [[(Num 0, 1 :: int), (p, 2)], [(Num 0, 2), (p, 1)]]) ps))) = 2 * count_list ps p"
  using assms
proof (induction ps)
  case Nil
  { case 1 show ?case by simp }
  { case 2 show ?case by simp }
  { case 3 show ?case by simp }
  { case 4 show ?case by simp }
  { case 5 show ?case by simp }
next
  case (Cons q ps)
  { case 1 then show ?case using Cons.IH(1) by (simp add: fake_pair_facts) }
  { case 2 then show ?case using Cons.IH(2) by (simp add: fake_pair_facts) }
  { case 3 then show ?case using Cons.IH(3) by simp }
  { case 4 then show ?case using Cons.IH(4) by simp }
  { case 5 then show ?case using Cons.IH(5) by auto }
qed

lemma count_list_distinct: "distinct ps \<Longrightarrow> p \<in> set ps \<Longrightarrow> count_list ps p = 1"
  by (induction ps) (auto simp: count_list_0_iff)

lemma count_list_absent: "x \<notin> set xs \<Longrightarrow> count_list xs x = 0"
  by (simp add: count_list_0_iff)

lemma fake_member:
  "p \<in> set ps \<Longrightarrow>
     [(Num 0, 1), (p, 2)] \<in> set (concat (map (\<lambda>p. [[(Num 0, 1 :: int), (p, 2)], [(Num 0, 2), (p, 1)]]) ps))
   \<and> [(Num 0, 2), (p, 1)] \<in> set (concat (map (\<lambda>p. [[(Num 0, 1 :: int), (p, 2)], [(Num 0, 2), (p, 1)]]) ps))"
  by auto

lemma fake_win_loss:
  assumes "[(Num 0, 1), (p, 2)] \<in> set gs" and "[(Num 0, 2), (p, 1)] \<in> set gs"
  shows "win_class gs p" and "loss_class gs p"
proof -
  have "\<exists>(p', r)\<in>set [(Num 0, 2), (p, 1 :: int)]. p' = p \<and> (\<exists>(q, r')\<in>set [(Num 0, 2), (p, 1)]. r < r')"
    by simp
  with assms(2) show "win_class gs p" unfolding win_class_def by blast
  have "\<exists>(p', r)\<in>set [(Num 0, 1), (p, 2 :: int)]. p' = p \<and> (\<exists>(q, r')\<in>set [(Num 0, 1), (p, 2)]. r' < r)"
    by simp
  with assms(1) show "loss_class gs p" unfolding loss_class_def by blast
qed

lemma augment_eq:
  assumes "\<forall>g\<in>set games. Num 0 \<notin> fst ` set g"
  shows "augment games = games @ concat (map (\<lambda>p. [[(Num 0, 1), (p, 2)], [(Num 0, 2), (p, 1)]])
           (players_of games))"
  unfolding augment_def using fake_games_eq[OF anchor_absent[OF assms]] by simp

lemma augment_player:
  assumes h: "\<forall>g\<in>set games. Num 0 \<notin> fst ` set g" and p: "p \<in> set (players_of games)"
  shows "length (filter (\<lambda>g. Num 0 \<in> fst ` set g \<and> p \<in> fst ` set g) (augment games)) = 2
        \<and> count_list (augment games) [(Num 0, 1), (p, 2)] = 1
        \<and> count_list (augment games) [(Num 0, 2), (p, 1)] = 1
        \<and> length (filter (\<lambda>g. beats g (Num 0) p) (augment games)) = 1
        \<and> length (filter (\<lambda>g. beats g p (Num 0)) (augment games)) = 1
        \<and> win_class (augment games) p \<and> loss_class (augment games) p"
proof -
  let ?F = "concat (map (\<lambda>p. [[(Num 0, 1 :: int), (p, 2)], [(Num 0, 2), (p, 1)]]) (players_of games))"
  note a = augment_eq[OF h]
  note n0 = anchor_absent[OF h]
  from p n0 have pn: "p \<noteq> Num 0" by auto
  have c: "count_list (players_of games) p = 1"
    by (rule count_list_distinct[OF players_of_distinct p])
  have r0: "filter (\<lambda>g. Num 0 \<in> fst ` set g \<and> p \<in> fst ` set g) games = []"
    using h by (auto simp: filter_empty_conv)
  have r1: "[(Num 0, 1), (p, 2)] \<notin> set games" "[(Num 0, 2), (p, 1)] \<notin> set games"
    using h by force+
  have 1: "length (filter (\<lambda>g. Num 0 \<in> fst ` set g \<and> p \<in> fst ` set g) (augment games)) = 2"
    unfolding a filter_append r0 using count_fake(5)[OF n0 pn] c by simp
  have 2: "count_list (augment games) [(Num 0, 1), (p, 2)] = 1"
    unfolding a using count_fake(3)[OF n0 pn] c count_list_absent[OF r1(1)] by simp
  have 3: "count_list (augment games) [(Num 0, 2), (p, 1)] = 1"
    unfolding a using count_fake(4)[OF n0 pn] c count_list_absent[OF r1(2)] by simp
  have 4: "length (filter (\<lambda>g. beats g (Num 0) p) (augment games)) = 1"
    unfolding a filter_append filter_beats_real[OF h] using count_fake(1)[OF n0 pn] c by simp
  have 5: "length (filter (\<lambda>g. beats g p (Num 0)) (augment games)) = 1"
    unfolding a filter_append filter_beats_real[OF h] using count_fake(2)[OF n0 pn] c by simp
  from fake_member[OF p] have m: "[(Num 0, 1), (p, 2)] \<in> set (augment games)"
    "[(Num 0, 2), (p, 1)] \<in> set (augment games)" unfolding a by simp_all
  note 6 = fake_win_loss[OF m]
  from 1 2 3 4 5 6 show ?thesis by (intro conjI)
qed

lemma augment_synthetic:
  assumes h: "\<forall>g\<in>set games. Num 0 \<notin> fst ` set g"
    and g: "g \<in> set (augment games)" and z: "Num 0 \<in> fst ` set g"
  shows "\<exists>p\<in>set (players_of games). g = [(Num 0, 1), (p, 2)] \<or> g = [(Num 0, 2), (p, 1)]"
proof -
  from h z have "g \<notin> set games" by blast
  with g show ?thesis unfolding augment_eq[OF h] by auto
qed

text \<open>
  Claim C4: for a corpus whose keys are player names (none is the key \<open>0\<close> of the fake
  player), the augmented corpus is the corpus followed, for each of its players \<open>p\<close> (each
  taken once), by the two rankings \<open>{0: 1, p: 2}\<close> and \<open>{0: 2, p: 1}\<close>.  So for every
  player \<open>p\<close> exactly two rankings of the augmented corpus hold both \<open>p\<close> and the fake
  player, each of the two forms occurs exactly once, the fake player finishes before \<open>p\<close>
  in exactly one ranking and behind \<open>p\<close> in exactly one, and \<open>p\<close> has a win-class and a
  loss-class event; and every ranking of the augmented corpus that holds the fake player
  is one of these.
\<close>

theorem augment_adds_two_games_per_player:
  assumes "\<forall>g\<in>set games. Num 0 \<notin> fst ` set g"
  shows "augment games = games @ concat (map (\<lambda>p. [[(Num 0, 1), (p, 2)], [(Num 0, 2), (p, 1)]])
             (players_of games))
     \<and> distinct (players_of games)
     \<and> set (players_of games) = (\<Union>g\<in>set games. fst ` set g)
     \<and> length (augment games) = length games + 2 * length (players_of games)
     \<and> (\<forall>p\<in>set (players_of games).
          length (filter (\<lambda>g. Num 0 \<in> fst ` set g \<and> p \<in> fst ` set g) (augment games)) = 2
        \<and> count_list (augment games) [(Num 0, 1), (p, 2)] = 1
        \<and> count_list (augment games) [(Num 0, 2), (p, 1)] = 1
        \<and> length (filter (\<lambda>g. beats g (Num 0) p) (augment games)) = 1
        \<and> length (filter (\<lambda>g. beats g p (Num 0)) (augment games)) = 1
        \<and> win_class (augment games) p \<and> loss_class (augment games) p)
     \<and> (\<forall>g\<in>set (augment games). Num 0 \<in> fst ` set g \<longrightarrow>
          (\<exists>p\<in>set (players_of games). g = [(Num 0, 1), (p, 2)] \<or> g = [(Num 0, 2), (p, 1)]))"
proof (intro conjI ballI impI)
  show "augment games = games @ concat (map (\<lambda>p. [[(Num 0, 1), (p, 2)], [(Num 0, 2), (p, 1)]])
             (players_of games))"
    by (rule augment_eq[OF assms])
  show "distinct (players_of games)" by (rule players_of_distinct)
  show "set (players_of games) = (\<Union>g\<in>set games. fst ` set g)" by (rule players_of_set)
  show "length (augment games) = length games + 2 * length (players_of games)"
    unfolding augment_eq[OF assms] by (simp add: length_concat o_def sum_list_triv)
next
  fix p assume p: "p \<in> set (players_of games)"
  note f = augment_player[OF assms p]
  show "length (filter (\<lambda>g. Num 0 \<in> fst ` set g \<and> p \<in> fst ` set g) (augment games)) = 2"
    using f by blast
  show "count_list (augment games) [(Num 0, 1), (p, 2)] = 1" using f by blast
  show "count_list (augment games) [(Num 0, 2), (p, 1)] = 1" using f by blast
  show "length (filter (\<lambda>g. beats g (Num 0) p) (augment games)) = 1" using f by blast
  show "length (filter (\<lambda>g. beats g p (Num 0)) (augment games)) = 1" using f by blast
  show "win_class (augment games) p" using f by blast
  show "loss_class (augment games) p" using f by blast
next
  fix g assume "g \<in> set (augment games)" "Num 0 \<in> fst ` set g"
  with assms show "\<exists>p\<in>set (players_of games). g = [(Num 0, 1), (p, 2)] \<or> g = [(Num 0, 2), (p, 1)]"
    by (rule augment_synthetic)
qed

theorem augment_adds_two_games_per_player_witness:
  "augment [[(Str ''a'', 1), (Str ''b'', 2)]]
     = [[(Str ''a'', 1), (Str ''b'', 2)],
        [(Num 0, 1), (Str ''a'', 2)], [(Num 0, 2), (Str ''a'', 1)],
        [(Num 0, 1), (Str ''b'', 2)], [(Num 0, 2), (Str ''b'', 1)]]
   \<and> players_of [[(Str ''a'', 1 :: int), (Str ''b'', 2)]] = [Str ''a'', Str ''b'']
   \<and> length (filter (\<lambda>g. Num 0 \<in> fst ` set g \<and> Str ''b'' \<in> fst ` set g)
         (augment [[(Str ''a'', 1), (Str ''b'', 2)]])) = 2
   \<and> count_list (augment [[(Str ''a'', 1), (Str ''b'', 2)]]) [(Num 0, 1), (Str ''b'', 2)] = 1
   \<and> count_list (augment [[(Str ''a'', 1), (Str ''b'', 2)]]) [(Num 0, 2), (Str ''b'', 1)] = 1
   \<and> length (filter (\<lambda>g. beats g (Num 0) (Str ''b'')) (augment [[(Str ''a'', 1), (Str ''b'', 2)]])) = 1
   \<and> length (filter (\<lambda>g. beats g (Str ''b'') (Num 0)) (augment [[(Str ''a'', 1), (Str ''b'', 2)]])) = 1
   \<and> win_class (augment [[(Str ''a'', 1), (Str ''b'', 2)]]) (Str ''b'')
   \<and> loss_class (augment [[(Str ''a'', 1), (Str ''b'', 2)]]) (Str ''b'')
   \<and> \<not> win_class [[(Str ''a'', 1), (Str ''b'', 2)]] (Str ''b'')
   \<and> [(Num 0, 2), (Str ''b'', 1)] \<in> set (augment [[(Str ''a'', 1), (Str ''b'', 2)]])
   \<and> (\<exists>p\<in>set (players_of [[(Str ''a'', 1 :: int), (Str ''b'', 2)]]).
         [(Num 0, 2), (Str ''b'', 1 :: int)] = [(Num 0, 1), (p, 2)]
         \<or> [(Num 0, 2), (Str ''b'', 1 :: int)] = [(Num 0, 2), (p, 1)])"
proof -
  let ?G = "[[(Str ''a'', 1 :: int), (Str ''b'', 2)]]"
  have h: "\<forall>g\<in>set ?G. Num 0 \<notin> fst ` set g" by simp
  note inst = augment_adds_two_games_per_player[OF h]
  have ps: "players_of ?G = [Str ''a'', Str ''b'']" by (simp add: players_of_def)
  from inst[THEN conjunct1]
  have e: "augment ?G = [[(Str ''a'', 1), (Str ''b'', 2)],
        [(Num 0, 1), (Str ''a'', 2)], [(Num 0, 2), (Str ''a'', 1)],
        [(Num 0, 1), (Str ''b'', 2)], [(Num 0, 2), (Str ''b'', 1)]]"
    unfolding ps by simp
  have b: "Str ''b'' \<in> set (players_of ?G)" unfolding ps by simp
  note c5 = inst[THEN conjunct2, THEN conjunct2, THEN conjunct2, THEN conjunct2, THEN conjunct1,
      THEN bspec, OF b]
  have nw: "\<not> win_class ?G (Str ''b'')" by (simp add: win_class_def)
  have m: "[(Num 0, 2), (Str ''b'', 1)] \<in> set (augment ?G)" unfolding e by simp
  have z: "Num 0 \<in> fst ` set [(Num 0, 2 :: int), (Str ''b'', 1)]" by simp
  note c6 = inst[THEN conjunct2, THEN conjunct2, THEN conjunct2, THEN conjunct2, THEN conjunct2,
      THEN bspec, OF m, THEN mp, OF z]
  from e ps c5 nw m c6 show ?thesis by (intro conjI) blast+
qed

section \<open>The estimator on the fake games alone\<close>

lemma pair_inner:
  assumes "map_of gs (Num 0) = Some x" and "map_of gs q = Some x" and "x \<noteq> 0" and "Num 0 \<noteq> q"
  shows "py_sum (place_term gs p [(Num 0, 1), (q, 2)]) (map snd [(Num 0, 1 :: int), (q, 2)])
           = Inr (if p = Num 0 then 1 / (2 * x) else if p = q then 1 / (2 * x) + 1 / x else 0)"
    and "py_sum (place_term gs p [(Num 0, 2), (q, 1)]) (map snd [(Num 0, 2 :: int), (q, 1)])
           = Inr (if p = Num 0 then 1 / x + 1 / (2 * x) else if p = q then 1 / (2 * x) else 0)"
  using assms by (auto simp: denoms_eval)

lemma pair_sum:
  fixes x :: real
  assumes "x \<noteq> 0"
  shows "1 / (2 * x) + (1 / x + 1 / (2 * x)) = 2 / x" "1 / (2 * x) + 1 / x + 1 / (2 * x) = 2 / x"
  using assms by (simp_all add: field_simps)

lemma denom_fake_from:
  assumes "map_of gs (Num 0) = Some x" and "\<forall>q\<in>set ps. map_of gs q = Some x" and "x \<noteq> 0"
    and "Num 0 \<notin> set ps"
  shows "py_sum_from acc (\<lambda>ranking. py_sum (place_term gs p ranking) (map snd ranking))
           (concat (map (\<lambda>p. [[(Num 0, 1), (p, 2)], [(Num 0, 2), (p, 1)]]) ps))
         = Inr (acc + (if p = Num 0 then real (length ps) else real (count_list ps p)) * (2 / x))"
  using assms(2,4)
proof (induction ps arbitrary: acc)
  case Nil
  show ?case by simp
next
  case (Cons q ps)
  from Cons.prems have q: "map_of gs q = Some x" and nq: "Num 0 \<noteq> q"
    and rest: "\<forall>q\<in>set ps. map_of gs q = Some x" "Num 0 \<notin> set ps" by auto
  note i = pair_inner[OF assms(1) q assms(3) nq, of p]
  let ?f = "\<lambda>ranking. py_sum (place_term gs p ranking) (map snd ranking)"
  let ?v = "if p = Num 0 \<or> p = q then 2 / x else 0"
  have v: "(if p = Num 0 then 1 / (2 * x) else if p = q then 1 / (2 * x) + 1 / x else 0)
         + (if p = Num 0 then 1 / x + 1 / (2 * x) else if p = q then 1 / (2 * x) else 0) = ?v"
    using pair_sum[OF assms(3)] by auto
  have "py_sum_from acc ?f (concat (map (\<lambda>p. [[(Num 0, 1), (p, 2)], [(Num 0, 2), (p, 1)]]) (q # ps)))
      = py_sum_from (acc + ?v) ?f (concat (map (\<lambda>p. [[(Num 0, 1), (p, 2)], [(Num 0, 2), (p, 1)]]) ps))"
    using i v by (simp add: add.assoc del: One_nat_def)
  also have "\<dots> = Inr (acc + ?v + (if p = Num 0 then real (length ps) else real (count_list ps p)) * (2 / x))"
    by (rule Cons.IH[OF rest])
  also have "acc + ?v + (if p = Num 0 then real (length ps) else real (count_list ps p)) * (2 / x)
      = acc + (if p = Num 0 then real (length (q # ps)) else real (count_list (q # ps) p)) * (2 / x)"
    by (auto simp: algebra_simps add_divide_distrib)
  finally show ?case .
qed

lemma denom_fake:
  assumes "map_of gs (Num 0) = Some x" and "\<forall>q\<in>set ps. map_of gs q = Some x" and "x \<noteq> 0"
    and "Num 0 \<notin> set ps"
  shows "denom_of gs (concat (map (\<lambda>p. [[(Num 0, 1), (p, 2)], [(Num 0, 2), (p, 1)]]) ps)) p
         = Inr ((if p = Num 0 then real (length ps) else real (count_list ps p)) * (2 / x))"
  unfolding denom_of_def by (subst py_sum_def) (simp add: denom_fake_from[OF assms])

lemma fake_players_set:
  "set (players_of (concat (map (\<lambda>p. [[(Num 0, 1 :: int), (p, 2)], [(Num 0, 2), (p, 1)]]) ps)))
     = (if ps = [] then {} else insert (Num 0) (set ps))"
  by (auto simp: players_of_def)

lemma ws_fake_count:
  assumes "Num 0 \<notin> set ps"
  shows "length (filter (\<lambda>R. \<exists>f. (p, f) \<in> set R \<and> f < int (length R))
           (concat (map (\<lambda>p. [[(Num 0, 1), (p, 2)], [(Num 0, 2), (p, 1)]]) ps)))
         = (if p = Num 0 then length ps else count_list ps p)"
  using assms by (induction ps) auto

lemma ws_fake:
  assumes "Num 0 \<notin> set ps"
  shows "counter_get (ws_of (concat (map (\<lambda>p. [[(Num 0, 1), (p, 2)], [(Num 0, 2), (p, 1)]]) ps))) p
         = (if p = Num 0 then int (length ps) else int (count_list ps p))"
proof -
  have d: "\<forall>R\<in>set (concat (map (\<lambda>p. [[(Num 0, 1 :: int), (p, 2)], [(Num 0, 2), (p, 1)]]) ps)).
             distinct (map fst R)"
    using assms by auto
  show ?thesis unfolding ws_of_count[OF d] ws_fake_count[OF assms] by simp
qed

lemma count_list_pos: "p \<in> set ps \<Longrightarrow> 0 < count_list ps p"
  by (induction ps) auto

lemma body_uniform:
  fixes ps :: "key list" and x :: real
  defines "R \<equiv> concat (map (\<lambda>p. [[(Num 0, 1 :: int), (p, 2)], [(Num 0, 2), (p, 1)]]) ps)"
  assumes n0: "Num 0 \<notin> set ps" and ne: "ps \<noteq> []" and x: "x \<noteq> 0"
    and g: "gammas s = map (\<lambda>p. (p, x)) (players_of R)"
  shows "pl_body (players_of R) R (ws_of R) s =
     Inr \<lparr> gammas = map (\<lambda>p. (p, x / 2)) (players_of R), prev_gammas = gammas s,
           gdiff = real (length (players_of R)) * (x / 2) ^ 2, pgdiff = gdiff s,
           iteration = iteration s + 1,
           printed = printed s @ [Progress (iteration s + 1) (real (length (players_of R)) * (x / 2) ^ 2)] @
             (if real (length (players_of R)) * (x / 2) ^ 2 > gdiff s
              then [Newline, Increased (real (length (players_of R)) * (x / 2) ^ 2) (gdiff s)] else []) \<rparr>"
proof -
  define P where "P = players_of R"
  define d where "d = (\<lambda>p. (if p = Num 0 then real (length ps) else real (count_list ps p)) * (2 / x))"
  define w where "w = (\<lambda>p. if p = Num 0 then int (length ps) else int (count_list ps p))"
  have setP: "set P = insert (Num 0) (set ps)"
    unfolding P_def R_def fake_players_set using ne by simp
  have gx: "map_of (gammas s) p = Some x" if "p \<in> set P" for p
    unfolding g P_def[symmetric] using that by (rule map_of_pairs)
  have g0: "map_of (gammas s) (Num 0) = Some x" by (rule gx) (simp add: setP)
  have gq: "\<forall>q\<in>set ps. map_of (gammas s) q = Some x" using gx setP by simp
  have den: "denom_of (gammas s) R p = Inr (d p)" for p
    unfolding R_def d_def by (rule denom_fake[OF g0 gq x n0])
  have dn: "denoms_of P (gammas s) R = Inr (map (\<lambda>p. (p, d p)) P)"
    unfolding denoms_of_def by (rule map_err_eqI) (simp add: den)
  have wp: "counter_get (ws_of R) p = w p" for p
    unfolding R_def w_def by (rule ws_fake[OF n0])
  have ratio: "d p \<noteq> 0 \<and> real_of_int (w p) / d p = x / 2" if "p \<in> set P" for p
  proof (cases "p = Num 0")
    case True
    with ne x show ?thesis by (simp add: d_def w_def)
  next
    case False
    with that setP have "p \<in> set ps" by simp
    then have "0 < count_list ps p" by (rule count_list_pos)
    with False x show ?thesis by (simp add: d_def w_def)
  qed
  have ng: "new_gammas P (ws_of R) (map (\<lambda>p. (p, d p)) P) = Inr (map (\<lambda>p. (p, x / 2)) P)"
    unfolding new_gammas_def
  proof (rule map_err_eqI)
    fix p assume p: "p \<in> set P"
    have "dict_get (map (\<lambda>p. (p, d p)) P) p = Inr (d p)"
      by (simp add: dict_get_def map_of_pairs[OF p])
    with ratio[OF p] show "(case dict_get (map (\<lambda>p. (p, d p)) P) p of
           Inl e \<Rightarrow> Inl e
         | Inr d \<Rightarrow> (case py_div (real_of_int (counter_get (ws_of R) p)) d of
                      Inl e \<Rightarrow> Inl e | Inr g \<Rightarrow> Inr (p, g))) = Inr (p, x / 2)"
      by (simp add: py_div_def wp)
  qed
  have "gdiff_of (map (\<lambda>p. (p, x / 2)) P) (gammas s)
      = Inr (\<Sum>y\<leftarrow>map (\<lambda>p. (p, x / 2)) P. (x / 2) ^ 2)"
    unfolding gdiff_of_def
  proof (rule py_sum_eqI)
    fix y assume "y \<in> set (map (\<lambda>p. (p, x / 2)) P)"
    then obtain p where p: "p \<in> set P" and y: "y = (p, x / 2)" by auto
    have "(x / 2 - x) ^ 2 = (x / 2) ^ 2" by (simp add: power2_eq_square field_simps)
    with gx[OF p] show "(case y of (player, gamma) \<Rightarrow> case dict_get (gammas s) player of
             Inl e \<Rightarrow> Inl e | Inr g0 \<Rightarrow> Inr ((gamma - g0) ^ 2)) = Inr ((x / 2) ^ 2)"
      by (simp add: y dict_get_def)
  qed
  also have "(\<Sum>y\<leftarrow>map (\<lambda>p. (p, x / 2)) P. (x / 2) ^ 2) = real (length P) * (x / 2) ^ 2"
    by (simp add: sum_list_triv comp_def)
  finally have gd: "gdiff_of (map (\<lambda>p. (p, x / 2)) P) (gammas s) = Inr (real (length P) * (x / 2) ^ 2)" .
  from pl_body_returns[OF dn ng gd] show ?thesis unfolding P_def .
qed

lemma loop_step:
  assumes R: "R = concat (map (\<lambda>p. [[(Num 0, 1 :: int), (p, 2)], [(Num 0, 2), (p, 1)]]) ps)"
    and n0: "Num 0 \<notin> set ps" and ne: "ps \<noteq> []" and x: "x \<noteq> 0"
    and g: "gammas s = map (\<lambda>p. (p, x)) (players_of R)"
    and run: "gdiff s > 1 / 10 ^ 9"
  shows "\<exists>s'. pl_while (players_of R) R (ws_of R) s = pl_while (players_of R) R (ws_of R) s'
           \<and> gammas s' = map (\<lambda>p. (p, x / 2)) (players_of R)
           \<and> gdiff s' = real (length (players_of R)) * (x / 2) ^ 2"
proof -
  define s' where "s' = \<lparr> gammas = map (\<lambda>p. (p, x / 2)) (players_of R), prev_gammas = gammas s,
           gdiff = real (length (players_of R)) * (x / 2) ^ 2, pgdiff = gdiff s,
           iteration = iteration s + 1,
           printed = printed s @ [Progress (iteration s + 1) (real (length (players_of R)) * (x / 2) ^ 2)] @
             (if real (length (players_of R)) * (x / 2) ^ 2 > gdiff s
              then [Newline, Increased (real (length (players_of R)) * (x / 2) ^ 2) (gdiff s)] else []) \<rparr>"
  have b: "pl_body (players_of R) R (ws_of R) s = Inr s'"
    unfolding s'_def using body_uniform[OF n0 ne x g[unfolded R]] unfolding R .
  have 1: "pl_while (players_of R) R (ws_of R) s = pl_while (players_of R) R (ws_of R) s'"
    by (subst pl_while.simps) (use run b in simp)
  have 2: "gammas s' = map (\<lambda>p. (p, x / 2)) (players_of R)" by (simp add: s'_def)
  have 3: "gdiff s' = real (length (players_of R)) * (x / 2) ^ 2" by (simp add: s'_def)
  from 1 2 3 show ?thesis by blast
qed

lemma loop_stop:
  "\<not> gdiff s > 1 / 10 ^ 9 \<Longrightarrow> pl_while players rankings ws s = Some (Inr s)"
  by (subst pl_while.simps) simp

lemma loop_uniform:
  assumes R: "R = concat (map (\<lambda>p. [[(Num 0, 1 :: int), (p, 2)], [(Num 0, 2), (p, 1)]]) ps)"
    and n0: "Num 0 \<notin> set ps" and ne: "ps \<noteq> []"
    and x: "0 < x"
    and g: "gammas s = map (\<lambda>p. (p, x)) (players_of R)"
    and bound: "real (length (players_of R)) * (x / 2) ^ 2 / 4 ^ n \<le> 1 / 10 ^ 9"
  shows "\<exists>u y. pl_while (players_of R) R (ws_of R) s = Some (Inr u) \<and> 0 < y
           \<and> gammas u = map (\<lambda>p. (p, y)) (players_of R)"
  using x g bound
proof (induction n arbitrary: s x)
  case 0
  show ?case
  proof (cases "gdiff s > 1 / 10 ^ 9")
    case False
    from loop_stop[OF False] "0.prems"(1,2) show ?thesis by blast
  next
    case True
    from "0.prems"(1) have x0: "x \<noteq> 0" by simp
    from loop_step[OF R n0 ne x0 "0.prems"(2) True] obtain s' where
      w: "pl_while (players_of R) R (ws_of R) s = pl_while (players_of R) R (ws_of R) s'"
      and g': "gammas s' = map (\<lambda>p. (p, x / 2)) (players_of R)"
      and d': "gdiff s' = real (length (players_of R)) * (x / 2) ^ 2" by blast
    from "0.prems"(3) d' have "\<not> gdiff s' > 1 / 10 ^ 9" by simp
    from loop_stop[OF this] w
    have "pl_while (players_of R) R (ws_of R) s = Some (Inr s')" by simp
    moreover from "0.prems"(1) have "0 < x / 2" by simp
    ultimately show ?thesis using g' by blast
  qed
next
  case (Suc n)
  show ?case
  proof (cases "gdiff s > 1 / 10 ^ 9")
    case False
    from loop_stop[OF False] Suc.prems(1,2) show ?thesis by blast
  next
    case True
    from Suc.prems(1) have x0: "x \<noteq> 0" by simp
    from loop_step[OF R n0 ne x0 Suc.prems(2) True] obtain s' where
      w: "pl_while (players_of R) R (ws_of R) s = pl_while (players_of R) R (ws_of R) s'"
      and g': "gammas s' = map (\<lambda>p. (p, x / 2)) (players_of R)" by blast
    from Suc.prems(1) have h: "0 < x / 2" by simp
    have e: "(x / 2 / 2) ^ 2 = (x / 2) ^ 2 / 4" by (simp add: power2_eq_square)
    have "real (length (players_of R)) * ((x / 2) ^ 2 / 4) / 4 ^ n
        = real (length (players_of R)) * (x / 2) ^ 2 / 4 ^ Suc n" by simp
    with Suc.prems(3)
    have b: "real (length (players_of R)) * (x / 2 / 2) ^ 2 / 4 ^ n \<le> 1 / 10 ^ 9"
      unfolding e by (simp only:)
    from Suc.IH[OF h g' b] w show ?thesis by simp
  qed
qed

lemma bound_exists:
  fixes c :: real
  shows "\<exists>n. c / 4 ^ n \<le> 1 / 10 ^ 9"
proof -
  from real_arch_pow[of 4 "c * 10 ^ 9"] obtain n :: nat where "c * 10 ^ 9 < 4 ^ n" by auto
  then have "c / 4 ^ n \<le> 1 / 10 ^ 9" by (simp add: field_simps)
  then show ?thesis ..
qed

text \<open>
  Claim C6: for a non-empty list \<open>ps\<close> of players, none of them the key \<open>0\<close> of the fake
  player, \<open>plackett_luce\<close> run on the fake games of \<open>ps\<close> alone leaves its loop and
  returns a dict that gives one and the same positive value \<open>y\<close> to every key, so all
  players of \<open>ps\<close> get equal strength values.  (Each iteration halves the common value,
  and the statistic \<open>gdiff\<close>, the number of keys times the square of the new value, falls
  below \<open>1e-9\<close> after finitely many iterations.)
\<close>

theorem synthetic_only_equal_strengths:
  assumes "Num 0 \<notin> set ps" and "ps \<noteq> []"
  shows "\<exists>g out y. plackett_luce (fake_games ps) = Some (Inr (g, out)) \<and> 0 < y
           \<and> g = map (\<lambda>p. (p, y)) (players_of (fake_games ps))
           \<and> (\<forall>p\<in>set ps. map_of g p = Some y)"
proof -
  define R where "R = fake_games ps"
  have R: "R = concat (map (\<lambda>p. [[(Num 0, 1 :: int), (p, 2)], [(Num 0, 2), (p, 1)]]) ps)"
    unfolding R_def by (rule fake_games_eq[OF assms(1)])
  have setP: "set (players_of R) = insert (Num 0) (set ps)"
    unfolding R fake_players_set using assms(2) by simp
  then have "players_of R \<noteq> []" by auto
  then have x: "0 < 1 / real (length (players_of R))" by simp
  have g: "gammas (pl_init (players_of R))
         = map (\<lambda>p. (p, 1 / real (length (players_of R)))) (players_of R)"
    by (simp add: pl_init_def)
  from bound_exists obtain n where
    b: "real (length (players_of R)) * (1 / real (length (players_of R)) / 2) ^ 2 / 4 ^ n \<le> 1 / 10 ^ 9"
    by blast
  from loop_uniform[OF R assms x g b] obtain u y where
    w: "pl_while (players_of R) R (ws_of R) (pl_init (players_of R)) = Some (Inr u)"
    and y: "0 < y" and gu: "gammas u = map (\<lambda>p. (p, y)) (players_of R)" by blast
  from w have 1: "plackett_luce R = Some (Inr (gammas u, printed u @ [Newline]))"
    by (simp add: plackett_luce_def Let_def)
  have 2: "\<forall>p\<in>set ps. map_of (gammas u) p = Some y"
  proof
    fix p assume "p \<in> set ps"
    with setP have "p \<in> set (players_of R)" by simp
    then show "map_of (gammas u) p = Some y" unfolding gu by (rule map_of_pairs)
  qed
  from 1 y gu 2 show ?thesis unfolding R_def by blast
qed

theorem synthetic_only_equal_strengths_witness:
  "players_of (fake_games [Str ''a'', Str ''b'']) = [Str ''a'', Num 0, Str ''b'']
   \<and> (\<exists>g out y. plackett_luce (fake_games [Str ''a'', Str ''b'']) = Some (Inr (g, out)) \<and> 0 < y
           \<and> g = map (\<lambda>p. (p, y)) (players_of (fake_games [Str ''a'', Str ''b'']))
           \<and> (\<forall>p\<in>set [Str ''a'', Str ''b'']. map_of g p = Some y))"
proof -
  have h1: "Num 0 \<notin> set [Str ''a'', Str ''b'']" by simp
  have h2: "[Str ''a'', Str ''b''] \<noteq> []" by simp
  have e: "players_of (fake_games [Str ''a'', Str ''b'']) = [Str ''a'', Num 0, Str ''b'']"
    by (simp add: fake_games_def players_of_def)
  from e synthetic_only_equal_strengths[OF h1 h2] show ?thesis by (rule conjI)
qed

end
